theory Spec2Isabelle
  imports Main
begin

section \<open>Text and bytes\<close>

text \<open>
  A \<open>Buffer\<close> is a sequence of bytes; the HOL type \<open>char\<close> has exactly the 256 byte
  values, so a buffer is a \<open>char list\<close>.  A JavaScript string is a sequence of UTF-16
  code units, kept here as natural numbers.  \<open>js\<close> is the JavaScript string literal
  with the given ASCII characters.
\<close>

type_synonym buffer = "char list"
type_synonym jsstring = "nat list"

abbreviation js :: "string \<Rightarrow> jsstring" where
  "js s \<equiv> map of_char s"

text \<open>
  \<open>Buffer.prototype.toString('utf8')\<close> is a function of the platform.  It is modelled
  after the UTF-8 decoder of the Encoding standard: \<open>need\<close> continuation bytes are still
  expected for the code point \<open>cp\<close>, the next one within \<open>lo .. hi\<close>; an ill-formed or
  truncated sequence gives U+FFFD, and the byte that broke it starts afresh.
\<close>

definition utf16 :: "nat \<Rightarrow> jsstring" where
  "utf16 cp = (if cp < 0x10000 then [cp]
     else [0xD800 + (cp - 0x10000) div 0x400, 0xDC00 + (cp - 0x10000) mod 0x400])"

fun utf8_decode :: "nat \<Rightarrow> nat \<Rightarrow> nat \<Rightarrow> nat \<Rightarrow> nat list \<Rightarrow> jsstring" where
  "utf8_decode need cp lo hi [] = (if need = 0 then [] else [0xFFFD])"
| "utf8_decode need cp lo hi (b # bs) =
     (if need \<noteq> 0 \<and> lo \<le> b \<and> b \<le> hi then
        (if need = 1 then utf16 (cp * 0x40 + b mod 0x40) @ utf8_decode 0 0 0x80 0xBF bs
         else utf8_decode (need - 1) (cp * 0x40 + b mod 0x40) 0x80 0xBF bs)
      else (if need \<noteq> 0 then [0xFFFD] else []) @
        (if b \<le> 0x7F then b # utf8_decode 0 0 0x80 0xBF bs
         else if 0xC2 \<le> b \<and> b \<le> 0xDF then utf8_decode 1 (b mod 0x20) 0x80 0xBF bs
         else if 0xE0 \<le> b \<and> b \<le> 0xEF then
           utf8_decode 2 (b mod 0x10) (if b = 0xE0 then 0xA0 else 0x80)
             (if b = 0xED then 0x9F else 0xBF) bs
         else if 0xF0 \<le> b \<and> b \<le> 0xF4 then
           utf8_decode 3 (b mod 8) (if b = 0xF0 then 0x90 else 0x80)
             (if b = 0xF4 then 0x8F else 0xBF) bs
         else 0xFFFD # utf8_decode 0 0 0x80 0xBF bs))"

definition toString_utf8 :: "buffer \<Rightarrow> jsstring" where
  "toString_utf8 chunk = utf8_decode 0 0 0x80 0xBF (map of_char chunk)"

text \<open>\<open>String.prototype.split('\n')\<close>: the fragments between line feeds, never empty.\<close>

fun split_nl :: "jsstring \<Rightarrow> jsstring list" where
  "split_nl [] = [[]]"
| "split_nl (c # cs) =
     (if c = 0x0A then [] # split_nl cs
      else (case split_nl cs of [] \<Rightarrow> [[c]] | l # ls \<Rightarrow> (c # l) # ls))"

text \<open>
  \<open>String.prototype.trim\<close> removes white space and line terminators from both ends.
\<close>

definition is_space :: "nat \<Rightarrow> bool" where
  "is_space c \<longleftrightarrow> (0x09 \<le> c \<and> c \<le> 0x0D) \<or> c = 0x20 \<or> c = 0xA0 \<or> c = 0x1680
     \<or> (0x2000 \<le> c \<and> c \<le> 0x200A) \<or> c = 0x2028 \<or> c = 0x2029 \<or> c = 0x202F
     \<or> c = 0x205F \<or> c = 0x3000 \<or> c = 0xFEFF"

definition trim :: "jsstring \<Rightarrow> jsstring" where
  "trim s = rev (dropWhile is_space (rev (dropWhile is_space s)))"

section \<open>M3U8Parser\<close>

datatype event = Tag jsstring "jsstring option" | Item jsstring | End

text \<open>
  The regular expression \<open>/^#(EXT[A-Z0-9-]+)(?::(.*))?/\<close> of \<open>parseLine\<close>.  The class
  \<open>[A-Z0-9-]\<close> is \<open>is_tag_char\<close>; \<open>.\<close> matches every code unit but the line
  terminators.  The pattern is anchored at the start of the line only.  The result is
  the pair of the capture groups 1 and 2, the second \<open>None\<close> when the group took no part
  in the match (\<open>undefined\<close>).
\<close>

definition is_tag_char :: "nat \<Rightarrow> bool" where
  "is_tag_char c \<longleftrightarrow> (0x41 \<le> c \<and> c \<le> 0x5A) \<or> (0x30 \<le> c \<and> c \<le> 0x39) \<or> c = 0x2D"

definition is_line_terminator :: "nat \<Rightarrow> bool" where
  "is_line_terminator c \<longleftrightarrow> c = 0x0A \<or> c = 0x0D \<or> c = 0x2028 \<or> c = 0x2029"

definition match_tag :: "jsstring \<Rightarrow> (jsstring \<times> jsstring option) option" where
  "match_tag line =
     (if take 4 line = js ''#EXT'' \<and> takeWhile is_tag_char (drop 4 line) \<noteq> [] then
        (let name = js ''EXT'' @ takeWhile is_tag_char (drop 4 line);
             rest = dropWhile is_tag_char (drop 4 line)
         in (case rest of
               c # payload \<Rightarrow>
                 if c = 0x3A then Some (name, Some (takeWhile (\<lambda>c. \<not> is_line_terminator c) payload))
                 else Some (name, None)
             | [] \<Rightarrow> Some (name, None)))
      else None)"

text \<open>
  \<open>parseLine\<close> returns the events it emits.  \<open>tag[2] || null\<close> is \<open>null\<close> for an
  undefined and for an empty second group; \<open>line.trim()\<close> as a condition is true when
  the trimmed line is not empty.
\<close>

definition parseLine :: "jsstring \<Rightarrow> event list" where
  "parseLine line =
     (case match_tag line of
        Some (name, payload) \<Rightarrow>
          [Tag name (case payload of None \<Rightarrow> None | Some p \<Rightarrow> if p = [] then None else Some p)]
      | None \<Rightarrow>
          if \<not> (take 1 line = js ''#'') \<and> trim line \<noteq> [] then [Item (trim line)] else [])"

record parser =
  lastLine :: jsstring
  emitted :: "event list"

definition new_parser :: parser where
  "new_parser = \<lparr>lastLine = [], emitted = []\<rparr>"

text \<open>
  \<open>_write\<close> (here \<open>parser_write\<close>): the chunk is decoded on its own and split; the
  pending partial line goes in front of the first fragment; every fragment but the last is parsed, the last one is
  the new pending partial line.
\<close>

definition parser_write :: "parser \<Rightarrow> buffer \<Rightarrow> parser" where
  "parser_write p chunk =
     (let lines = split_nl (toString_utf8 chunk);
          lines = (if lastLine p \<noteq> [] then (lastLine p @ hd lines) # tl lines else lines)
      in \<lparr>lastLine = last lines,
          emitted = emitted p @ concat (map parseLine (butlast lines))\<rparr>)"

text \<open>The handler of \<open>finish\<close>: the pending line is parsed, then \<open>end\<close> is emitted.\<close>

definition finish :: "parser \<Rightarrow> parser" where
  "finish p = p\<lparr>emitted := emitted p @ parseLine (lastLine p) @ [End]\<rparr>"

text \<open>Feeding a list of chunks to a fresh parser and finishing.\<close>

definition parse_chunks :: "buffer list \<Rightarrow> event list" where
  "parse_chunks chunks = emitted (finish (foldl parser_write new_parser chunks))"

section \<open>BufferedStreamLoader\<close>

text \<open>
  Every \<open>new Error(...)\<close> of the sources is a constructor: \<open>InvalidUrl\<close> is
  \<open>Invalid URL: ${url}\<close>, \<open>BadStatus\<close> is \<open>Status code: ${res.statusCode}\<close>,
  \<open>ExhaustedRetries\<close> is \<open>Could not load buffered stream after several tries:
  ${err.message}\<close> with the error of the last attempt.  \<open>TransportError\<close> is an
  \<open>error\<close> event of the request or of the response, \<open>Thrown\<close> an exception raised by
  the platform or by the caller's resolve function.
\<close>

datatype jserror =
    InvalidUrl jsstring
  | TooManyRedirects
  | BadStatus int
  | TransportError jsstring
  | Thrown jsstring
  | ExhaustedRetries jserror
  | MissingExpiry
  | MissingSequenceId
  | InvalidCacheDepth

text \<open>
  What \<open>https.get\<close> does with a request: it throws at once, or the request is sent and
  ends with an \<open>error\<close> event, or with a response of a status code, a \<open>location\<close>
  header and a body.  The body is a sequence of \<open>data\<close> events closed by \<open>end\<close>, or
  broken off by \<open>error\<close>.  Every request is taken to come to one of these ends.
\<close>

datatype response_body = Complete "buffer list" | Broken "buffer list" jsstring

datatype get_outcome =
    GetThrows jsstring
  | RequestError jsstring
  | Response int "jsstring option" response_body

text \<open>
  The platform and the outside world.  \<open>'w\<close> is the state of the world (servers, clock,
  consumer of the stream); the functions below are those the sources call and do not
  define: \<open>parse(url).protocol\<close>, \<open>https.get\<close>, \<open>Date.now()\<close>, the \<open>href\<close> of
  \<open>new URL(u)\<close> after \<open>searchParams.append\<close> of the given pairs, the caller's
  \<open>resolveFunc\<close>, and whether the stream has been closed by now.
\<close>

record 'w platform =
  parse_protocol :: "jsstring \<Rightarrow> jsstring option"
  https_get :: "jsstring \<Rightarrow> 'w \<Rightarrow> get_outcome \<times> 'w"
  date_now :: "'w \<Rightarrow> int"
  URL_href :: "jsstring \<Rightarrow> (jsstring \<times> jsstring) list \<Rightarrow> jserror + jsstring"
  resolveFunc :: "bool \<Rightarrow> 'w \<Rightarrow> (jserror + jsstring) \<times> 'w"
  closed :: "'w \<Rightarrow> bool"

text \<open>The world together with the log of the requests that were sent, oldest first.\<close>

record 'w net =
  world :: 'w
  requests :: "jsstring list"

text \<open>
  \<open>resolve\<close> and \<open>reject\<close> of \<open>downloadBuffer\<close> settle the promise once: with
  \<open>finished\<close> set, every later call is ignored.  \<open>settled early r\<close> is the outcome of
  the promise when \<open>early\<close> was the state after the protocol check and \<open>r\<close> is what
  the rest of the function passes to \<open>resolve\<close> or \<open>reject\<close>.
\<close>

definition settled :: "(jserror + buffer) option \<Rightarrow> jserror + buffer \<Rightarrow> jserror + buffer" where
  "settled early r = (case early of Some first \<Rightarrow> first | None \<Rightarrow> r)"

text \<open>
  \<open>downloadBuffer\<close>.  After the protocol check the function goes on (there is no
  \<open>return\<close>), so \<open>https.get\<close> is called for every url.  A redirect calls
  \<open>downloadBuffer\<close> again with two arguments, so \<open>maxRedirects\<close> is 3 there.  A
  redirect without \<open>location\<close> header passes \<open>undefined\<close> to \<open>parse\<close>, which throws.
\<close>

function downloadBuffer ::
  "'w platform \<Rightarrow> jsstring \<Rightarrow> int \<Rightarrow> int \<Rightarrow> 'w net \<Rightarrow> (jserror + buffer) \<times> 'w net" where
  "downloadBuffer pf url redirectCount maxRedirects n =
     (let early = (if parse_protocol pf url \<noteq> Some (js ''https:'')
                   then Some (Inl (InvalidUrl url)) else None)
      in case https_get pf url (world n) of
           (GetThrows m, w) \<Rightarrow> (settled early (Inl (Thrown m)), n\<lparr>world := w\<rparr>)
         | (RequestError m, w) \<Rightarrow>
             (settled early (Inl (TransportError m)),
              \<lparr>world = w, requests = requests n @ [url]\<rparr>)
         | (Response statusCode location body, w) \<Rightarrow>
             (let n' = \<lparr>world = w, requests = requests n @ [url]\<rparr>
              in if statusCode \<in> {301, 302, 303, 307} then
                   (if redirectCount \<ge> maxRedirects - 1 then
                      (settled early (Inl TooManyRedirects), n')
                    else
                      (case location of
                         None \<Rightarrow> (settled early (Inl (Thrown (js ''ERR_INVALID_ARG_TYPE''))), n')
                       | Some l \<Rightarrow>
                           (case downloadBuffer pf l (redirectCount + 1) 3 n' of
                              (r, n'') \<Rightarrow> (settled early r, n''))))
                 else if statusCode < 200 \<or> 300 \<le> statusCode then
                   (settled early (Inl (BadStatus statusCode)), n')
                 else
                   (case body of
                      Complete data \<Rightarrow> (settled early (Inr (concat data)), n')
                    | Broken data m \<Rightarrow> (settled early (Inl (TransportError m)), n'))))"
  by pat_completeness auto
termination
  by (relation "measure (\<lambda>(pf, url, redirectCount, maxRedirects, n).
        (if maxRedirects = 3 then 0 else 4) + nat (3 - redirectCount))") auto

declare downloadBuffer.simps [simp del]

text \<open>
  \<open>download\<close> wraps the buffer in a \<open>Duplex\<close> stream that yields it; the stream is
  modelled by the buffer.
\<close>

definition download :: "'w platform \<Rightarrow> jsstring \<Rightarrow> 'w net \<Rightarrow> (jserror + buffer) \<times> 'w net" where
  "download pf reqUrl n = downloadBuffer pf reqUrl 0 3 n"

text \<open>
  \<open>downloadTries\<close>.  The optional warning callback acts on a state \<open>'l\<close> of the
  listener.
\<close>

definition attempt_failed :: jsstring where
  "attempt_failed = js ''StreamBuffer load attempt failed''"

function downloadTries ::
  "'w platform \<Rightarrow> (jsstring \<Rightarrow> jserror \<Rightarrow> 'l \<Rightarrow> 'l) option \<Rightarrow> jsstring \<Rightarrow> int \<Rightarrow>
     'w net \<times> 'l \<Rightarrow> (jserror + buffer) \<times> 'w net \<times> 'l" where
  "downloadTries pf warningCallback url tryCount (n, l) =
     (case download pf url n of
        (Inr stream, n') \<Rightarrow> (Inr stream, n', l)
      | (Inl err, n') \<Rightarrow>
          (let l' = (case warningCallback of
                       Some cb \<Rightarrow> cb attempt_failed err l
                     | None \<Rightarrow> l)
           in if tryCount \<le> 1 then (Inl (ExhaustedRetries err), n', l')
              else downloadTries pf warningCallback url (tryCount - 1) (n', l')))"
  by pat_completeness auto
termination
  by (relation "measure (\<lambda>(pf, warningCallback, url, tryCount, nl). nat tryCount)") auto

declare downloadTries.simps [simp del]

section \<open>YouTubeLiveStream\<close>

text \<open>
  The regular expressions \<open>/(?:expire\/([0-9]+))/g\<close> and \<open>/(?:sq\/([0-9]+))/g\<close>,
  run by \<open>exec\<close> on a fresh expression: the leftmost place where the literal prefix is
  followed by a digit, and all the digits that follow it.
\<close>

definition is_digit :: "nat \<Rightarrow> bool" where
  "is_digit c \<longleftrightarrow> 0x30 \<le> c \<and> c \<le> 0x39"

fun exec_digits :: "jsstring \<Rightarrow> jsstring \<Rightarrow> jsstring option" where
  "exec_digits pre [] = None"
| "exec_digits pre (c # cs) =
     (if take (length pre) (c # cs) = pre
         \<and> takeWhile is_digit (drop (length pre) (c # cs)) \<noteq> []
      then Some (takeWhile is_digit (drop (length pre) (c # cs)))
      else exec_digits pre cs)"

text \<open>
  A number is a double.  The numbers of this program are non-negative integers or
  \<open>Infinity\<close>: \<open>Finite v\<close> is the double whose value is the integer \<open>v\<close>.
  \<open>round_double v\<close> is the double nearest to the integer \<open>v\<close>: a significand of 53
  bits, a tie goes to the even significand, and what rounds to \<open>2^1024\<close> or beyond is
  \<open>Infinity\<close>.  The sum and the product of a number and an integer are rounded in this
  way.
\<close>

datatype jsnumber = Finite nat | Infinity

fun bit_length :: "nat \<Rightarrow> nat" where
  "bit_length n = (if n = 0 then 0 else Suc (bit_length (n div 2)))"

declare bit_length.simps [simp del]

definition round_double :: "nat \<Rightarrow> jsnumber" where
  "round_double v =
     (if bit_length v \<le> 53 then Finite v
      else
        (let ulp = 2 ^ (bit_length v - 53);
             q = v div ulp;
             r = v mod ulp;
             m = (if 2 * r < ulp then q
                  else if ulp < 2 * r then q + 1
                  else if even q then q else q + 1)
         in if 1024 < bit_length (m * ulp) then Infinity else Finite (m * ulp)))"

definition plus_number :: "jsnumber \<Rightarrow> nat \<Rightarrow> jsnumber" where
  "plus_number x k = (case x of Finite v \<Rightarrow> round_double (v + k) | Infinity \<Rightarrow> Infinity)"

definition times_number :: "jsnumber \<Rightarrow> nat \<Rightarrow> jsnumber" where
  "times_number x k = (case x of Finite v \<Rightarrow> round_double (v * k) | Infinity \<Rightarrow> Infinity)"

text \<open>\<open>t > x\<close> for an integer \<open>t\<close> (the value of \<open>Date.now()\<close>) and a number \<open>x\<close>.\<close>

definition exceeds :: "int \<Rightarrow> jsnumber \<Rightarrow> bool" where
  "exceeds t x = (case x of Finite v \<Rightarrow> int v < t | Infinity \<Rightarrow> False)"

text \<open>
  \<open>parseInt(digits, 10)\<close> on a string of decimal digits: the double nearest to the
  integer that the digits denote, \<open>digits_value\<close>.
\<close>

definition digits_value :: "jsstring \<Rightarrow> nat" where
  "digits_value ds = foldl (\<lambda>a d. 10 * a + (d - 0x30)) 0 ds"

definition parseInt :: "jsstring \<Rightarrow> jsnumber" where
  "parseInt ds = round_double (digits_value ds)"

text \<open>
  The string that a template literal prints for a number.  \<open>decimal\<close> is the decimal
  numeral of an integer.  For a finite number the digits are those of \<open>shortest\<close>: the
  integer with the fewest significant digits that still reads back as the same double
  (the greatest power of ten of which a multiple next to the number does), the nearer
  one of two, the even one of two equally near; it is printed in full below \<open>10^21\<close>
  and in exponent notation from there on.
\<close>

fun decimal :: "nat \<Rightarrow> jsstring" where
  "decimal n = (if n < 10 then [0x30 + n] else decimal (n div 10) @ [0x30 + n mod 10])"

declare decimal.simps [simp del]

definition reads_back :: "nat \<Rightarrow> nat \<Rightarrow> bool" where
  "reads_back x c \<longleftrightarrow> round_double c = Finite x"

definition shortest :: "nat \<Rightarrow> nat" where
  "shortest x =
     (case find (\<lambda>e. reads_back x (x div 10 ^ e * 10 ^ e)
                    \<or> reads_back x ((x div 10 ^ e + 1) * 10 ^ e))
             (rev [0..<Suc (length (decimal x))]) of
        None \<Rightarrow> x
      | Some e \<Rightarrow>
          (let lo = x div 10 ^ e * 10 ^ e;
               hi = (x div 10 ^ e + 1) * 10 ^ e
           in if reads_back x lo \<and> reads_back x hi then
                (if x - lo < hi - x then lo
                 else if hi - x < x - lo then hi
                 else if even (x div 10 ^ e) then lo else hi)
              else if reads_back x lo then lo else hi))"

definition exponent_form :: "nat \<Rightarrow> jsstring" where
  "exponent_form c =
     (let digits = decimal c;
          s = rev (dropWhile (\<lambda>d. d = 0x30) (rev digits));
          e = js ''e+'' @ decimal (length digits - 1)
      in if length s = 1 then s @ e else hd s # js ''.'' @ tl s @ e)"

definition number_string :: "jsnumber \<Rightarrow> jsstring" where
  "number_string x =
     (case x of
        Infinity \<Rightarrow> js ''Infinity''
      | Finite v \<Rightarrow>
          (let c = shortest v in if c < 10 ^ 21 then decimal c else exponent_form c))"

definition getExpireTime :: "jsstring \<Rightarrow> jserror + jsnumber" where
  "getExpireTime url =
     (case exec_digits (js ''expire/'') url of
        None \<Rightarrow> Inl MissingExpiry
      | Some ds \<Rightarrow> Inr (parseInt ds))"

definition getSequenceID :: "jsstring \<Rightarrow> jserror + jsnumber" where
  "getSequenceID url =
     (case exec_digits (js ''sq/'') url of
        None \<Rightarrow> Inl MissingSequenceId
      | Some ds \<Rightarrow> Inr (parseInt ds))"

text \<open>
  \<open>!x\<close> for a field that holds \<open>null\<close> or a string: \<open>null\<close> and the empty string are
  falsy.  \<open>Array.prototype.slice(start)\<close> with an integer \<open>start\<close>.
\<close>

definition falsy :: "jsstring option \<Rightarrow> bool" where
  "falsy x \<longleftrightarrow> x = None \<or> x = Some []"

definition slice :: "int \<Rightarrow> 'a list \<Rightarrow> 'a list" where
  "slice start xs =
     (let len = int (length xs);
          k = (if start < 0 then max (len + start) 0 else min start len)
      in drop (nat k) xs)"

text \<open>
  The fields of the stream object.  \<open>loadInterval\<close> is \<open>True\<close> while the interval timer
  is set and \<open>False\<close> for \<open>null\<close>.  \<open>piped\<close> holds the segments piped into the stream,
  in order; \<open>events\<close> the \<open>warning\<close> and \<open>error\<close> events emitted so far.
\<close>

datatype stream_event = Warning jsstring "jserror option" | Error jserror

record controller =
  segmentCacheCount :: int
  resolvedUrl :: "jsstring option"
  urlExpire :: jsnumber
  startSequence :: "jsstring option"
  loadInterval :: bool
  isLoadingSegments :: bool
  piped :: "buffer list"
  events :: "stream_event list"

definition emit :: "stream_event \<Rightarrow> controller \<Rightarrow> controller" where
  "emit e s = s\<lparr>events := events s @ [e]\<rparr>"

text \<open>The warning callback that \<open>loadSegments\<close> hands to \<open>downloadTries\<close>.\<close>

definition warn :: "jsstring \<Rightarrow> jserror \<Rightarrow> controller \<Rightarrow> controller" where
  "warn msg e = emit (Warning msg (Some e))"

text \<open>
  The checks and the initial fields of the constructor, as far as its second argument
  goes (\<open>None\<close>: not given; the argument is an integer here, and the first argument is
  taken to be a resolve function, as the declared overloads ask).
  \<open>arguments[1] || 3\<close> is 3 for a missing argument and for 0.  The value is the object
  on which the first refresh works, not yet the object that \<open>new\<close> returns: the
  constructor goes on to call \<open>loadFn()\<close> and \<open>setInterval\<close> (see \<open>new_stream\<close> below).
  The timer is taken as set, since the first \<open>loadSegments\<close> run reads \<open>loadInterval\<close>
  only after its first \<open>await\<close>, when \<open>setInterval\<close> has been called.
\<close>

definition constructor :: "int option \<Rightarrow> jserror + controller" where
  "constructor arg1 =
     (let segmentCacheCount = (case arg1 of None \<Rightarrow> 3 | Some c \<Rightarrow> if c = 0 then 3 else c)
      in if segmentCacheCount < 3 then Inl InvalidCacheDepth
         else Inr \<lparr>segmentCacheCount = segmentCacheCount, resolvedUrl = None,
                   urlExpire = Finite 0,
                   startSequence = None, loadInterval = True, isLoadingSegments = False,
                   piped = [], events = []\<rparr>)"

text \<open>
  The constructor of the earlier version (\<open>src/YouTubeLiveStream.ts\<close>), whose second
  parameter has the default value 3, used for a missing argument only.
\<close>

definition constructor_v1 :: "int option \<Rightarrow> jserror + int" where
  "constructor_v1 arg1 =
     (let segmentCacheCount = (case arg1 of None \<Rightarrow> 3 | Some c \<Rightarrow> c)
      in if segmentCacheCount < 3 then Inl InvalidCacheDepth else Inr segmentCacheCount)"

text \<open>
  The control flow is cooperative: other handlers run only while \<open>loadSegments\<close> waits
  at an \<open>await\<close>.  \<open>wake\<close> is what the handler of \<open>close\<close> has done to the object when
  the function goes on after a wait, if the stream was closed meanwhile.
\<close>

definition wake :: "'w platform \<Rightarrow> 'w net \<Rightarrow> controller \<Rightarrow> controller" where
  "wake pf n s = (if closed pf (world n) \<and> loadInterval s then s\<lparr>loadInterval := False\<rparr> else s)"

text \<open>\<open>loadSegments\<close>, lines 135 to 139: the playlist URL is resolved when needed.\<close>

definition resolveUrl ::
  "'w platform \<Rightarrow> 'w net \<times> controller \<Rightarrow> (jserror + unit) \<times> 'w net \<times> controller" where
  "resolveUrl pf = (\<lambda>(n, s).
     if falsy (resolvedUrl s) \<or> exceeds (date_now pf (world n)) (urlExpire s) then
       (case resolveFunc pf (falsy (resolvedUrl s)) (world n) of
          (Inl e, w) \<Rightarrow> (Inl e, n\<lparr>world := w\<rparr>, wake pf (n\<lparr>world := w\<rparr>) s)
        | (Inr u, w) \<Rightarrow>
            (let n' = n\<lparr>world := w\<rparr>;
                 s' = (wake pf n' s)\<lparr>resolvedUrl := Some u\<rparr>
             in case getExpireTime u of
                  Inl e \<Rightarrow> (Inl e, n', s')
                | Inr t \<Rightarrow> (Inr (), n', s'\<lparr>urlExpire := times_number t 1000\<rparr>)))
     else (Inr (), n, s))"

text \<open>
  Lines 141 to 161: the playlist is downloaded and parsed, and the items are
  collected.  The \<open>Duplex\<close> stream hands its buffer to the parser in one chunk (none when
  the buffer is empty) and ends.
\<close>

definition items_of :: "event list \<Rightarrow> jsstring list" where
  "items_of evs = concat (map (\<lambda>e. case e of Item i \<Rightarrow> [i] | _ \<Rightarrow> []) evs)"

definition loadPlaylist ::
  "'w platform \<Rightarrow> 'w net \<times> controller \<Rightarrow> (jserror + jsstring list) \<times> 'w net \<times> controller" where
  "loadPlaylist pf = (\<lambda>(n, s).
     case (case resolvedUrl s of
             None \<Rightarrow> Inl (Thrown (js ''ERR_INVALID_URL''))
           | Some u \<Rightarrow>
               URL_href pf u (case startSequence s of
                                Some q \<Rightarrow> if q = [] then [] else [(js ''start_seq'', q)]
                              | None \<Rightarrow> [])) of
       Inl e \<Rightarrow> (Inl e, n, s)
     | Inr href \<Rightarrow>
         (case downloadTries pf (Some warn) href 3 (n, s) of
            (Inl e, n', s') \<Rightarrow> (Inl e, n', wake pf n' s')
          | (Inr req, n', s') \<Rightarrow>
              (Inr (items_of (parse_chunks (if req = [] then [] else [req]))), n',
               wake pf n' s')))"

text \<open>
  Lines 173 to 185, the loop over the items.  The result is \<open>Inr True\<close> when the loop
  has run through and \<open>Inr False\<close> when the function returned from inside the loop.
\<close>

fun pipeSegments ::
  "'w platform \<Rightarrow> jsstring list \<Rightarrow> 'w net \<times> controller \<Rightarrow>
     (jserror + bool) \<times> 'w net \<times> controller" where
  "pipeSegments pf [] (n, s) = (Inr True, n, s)"
| "pipeSegments pf (item # items) (n, s) =
     (case downloadTries pf (Some warn) item 3 (n, s) of
        (Inl e, n', s') \<Rightarrow> (Inl e, n', wake pf n' s')
      | (Inr segment, n', s') \<Rightarrow>
          (let s'' = wake pf n' s'
           in if \<not> loadInterval s'' then (Inr False, n', s''\<lparr>isLoadingSegments := False\<rparr>)
              else pipeSegments pf items (n', s''\<lparr>piped := piped s'' @ [segment]\<rparr>)))"

text \<open>
  \<open>loadSegments\<close>.  \<open>items[items.length - 1]\<close> of an empty array is \<open>undefined\<close>, in which
  the pattern of \<open>getSequenceID\<close> is not found.
\<close>

definition overlap_warning :: stream_event where
  "overlap_warning =
     Warning (js ''A segment load was attempted while another one was still running'') None"

definition loadSegments ::
  "'w platform \<Rightarrow> 'w net \<times> controller \<Rightarrow> (jserror + unit) \<times> 'w net \<times> controller" where
  "loadSegments pf = (\<lambda>(n, s).
     if isLoadingSegments s then (Inr (), n, emit overlap_warning s)
     else
       (case resolveUrl pf (n, s\<lparr>isLoadingSegments := True\<rparr>) of
          (Inl e, n1, s1) \<Rightarrow> (Inl e, n1, s1)
        | (Inr _, n1, s1) \<Rightarrow>
            (case loadPlaylist pf (n1, s1) of
               (Inl e, n2, s2) \<Rightarrow> (Inl e, n2, s2)
             | (Inr items, n2, s2) \<Rightarrow>
                 if \<not> loadInterval s2 \<or> items = [] then
                   (Inr (), n2, s2\<lparr>isLoadingSegments := False\<rparr>)
                 else
                   (let items = (if falsy (startSequence s2)
                                 then slice (- segmentCacheCount s2) items else items)
                    in case pipeSegments pf items (n2, s2) of
                         (Inl e, n3, s3) \<Rightarrow> (Inl e, n3, s3)
                       | (Inr False, n3, s3) \<Rightarrow> (Inr (), n3, s3)
                       | (Inr True, n3, s3) \<Rightarrow>
                           (case (if items = [] then Inl MissingSequenceId
                                  else getSequenceID (last items)) of
                              Inl e \<Rightarrow> (Inl e, n3, s3)
                            | Inr q \<Rightarrow>
                                (Inr (), n3,
                                 s3\<lparr>startSequence := Some (number_string (plus_number q 1)),
                                    isLoadingSegments := False\<rparr>))))))"

text \<open>
  \<open>errorFn\<close> and \<open>loadFn\<close> of the constructor.  \<open>destroy\<close> closes the stream, and the
  handler of \<open>close\<close> clears the timer.
\<close>

definition errorFn :: "jserror \<Rightarrow> controller \<Rightarrow> controller" where
  "errorFn e s = emit (Error e) (s\<lparr>loadInterval := False\<rparr>)"

definition loadFn :: "'w platform \<Rightarrow> 'w net \<times> controller \<Rightarrow> 'w net \<times> controller" where
  "loadFn pf ns =
     (case loadSegments pf ns of
        (Inl e, n', s') \<Rightarrow> (n', errorFn e s')
      | (Inr _, n', s') \<Rightarrow> (n', s'))"

text \<open>
  \<open>new YouTubeLiveStream(resolveFunc, segmentCacheCount)\<close> together with the first
  refresh that it starts.  A refresh is one step of this model, so the value is the
  object when that refresh has come to its end; in the program \<open>new\<close> returns at the
  first \<open>await\<close> of the refresh, with \<open>isLoadingSegments\<close> set and \<open>resolveFunc\<close>
  called, and the refresh goes on from there.
\<close>

definition new_stream ::
  "'w platform \<Rightarrow> int option \<Rightarrow> 'w net \<Rightarrow> jserror + 'w net \<times> controller" where
  "new_stream pf arg1 n =
     (case constructor arg1 of
        Inl e \<Rightarrow> Inl e
      | Inr s \<Rightarrow> Inr (loadFn pf (n, s)))"

text \<open>
  \<open>fetched pf item segment\<close>: the bytes \<open>segment\<close> are what a fetch of the url \<open>item\<close>
  by \<open>loadSegments\<close> has returned in some world.
\<close>

definition fetched :: "'w platform \<Rightarrow> jsstring \<Rightarrow> buffer \<Rightarrow> bool" where
  "fetched pf item segment \<longleftrightarrow>
     (\<exists>n s n' s'. downloadTries pf (Some warn) item 3 (n, s) = (Inr segment, n', s'))"

section \<open>Platforms for worked examples\<close>

text \<open>
  \<open>url.parse(u).protocol\<close> of the legacy parser: the pattern \<open>/^[a-z0-9.+-]+:/i\<close>, in
  lower case, or \<open>null\<close>.
\<close>

definition is_scheme_char :: "nat \<Rightarrow> bool" where
  "is_scheme_char c \<longleftrightarrow> (0x61 \<le> c \<and> c \<le> 0x7A) \<or> (0x41 \<le> c \<and> c \<le> 0x5A)
     \<or> (0x30 \<le> c \<and> c \<le> 0x39) \<or> c = 0x2E \<or> c = 0x2B \<or> c = 0x2D"

definition legacy_protocol :: "jsstring \<Rightarrow> jsstring option" where
  "legacy_protocol url =
     (if takeWhile is_scheme_char url \<noteq> [] \<and> take 1 (dropWhile is_scheme_char url) = js '':''
      then Some (map (\<lambda>c. if 0x41 \<le> c \<and> c \<le> 0x5A then c + 0x20 else c)
                  (takeWhile is_scheme_char url) @ js '':'')
      else None)"

text \<open>
  A server that answers every request by the url alone.  The resolve function gives
  the url \<open>playlist\<close>; the clock stands at 0; the stream is never closed; a search
  parameter is appended to a url as \<open>?key=value\<close>.
\<close>

definition static :: "jsstring \<Rightarrow> (jsstring \<Rightarrow> get_outcome) \<Rightarrow> unit platform" where
  "static playlist site =
     \<lparr>parse_protocol = legacy_protocol,
      https_get = (\<lambda>url w. (site url, w)),
      date_now = (\<lambda>w. 0),
      URL_href = (\<lambda>u ps. Inr (u @ concat (map (\<lambda>(k, v). js ''?'' @ k @ js ''='' @ v) ps))),
      resolveFunc = (\<lambda>first w. (Inr playlist, w)),
      closed = (\<lambda>w. False)\<rparr>"

text \<open>
  A server that follows a script: the world is the list of the outcomes of the
  requests to come, and the connection is refused when the list is used up.  The
  consumer closes the stream as soon as fewer than \<open>c\<close> outcomes are left (never, for
  \<open>c = 0\<close>).
\<close>

definition scripted :: "jsstring \<Rightarrow> nat \<Rightarrow> get_outcome list platform" where
  "scripted playlist c =
     \<lparr>parse_protocol = legacy_protocol,
      https_get = (\<lambda>url w. case w of
                     [] \<Rightarrow> (RequestError (js ''ECONNREFUSED''), [])
                   | out # w' \<Rightarrow> (out, w')),
      date_now = (\<lambda>w. 0),
      URL_href = (\<lambda>u ps. Inr (u @ concat (map (\<lambda>(k, v). js ''?'' @ k @ js ''='' @ v) ps))),
      resolveFunc = (\<lambda>first w. (Inr playlist, w)),
      closed = (\<lambda>w. length w < c)\<rparr>"

text \<open>
  A live playlist of ten segments, and a site that serves it under one url and
  answers every other url with the bytes of the url itself.
\<close>

definition ten_segments :: buffer where
  "ten_segments = ''#EXTM3U\<newline>#EXT-X-VERSION:3\<newline>'' @
     ''https://h/sq/1\<newline>https://h/sq/2\<newline>https://h/sq/3\<newline>https://h/sq/4\<newline>'' @
     ''https://h/sq/5\<newline>https://h/sq/6\<newline>https://h/sq/7\<newline>https://h/sq/8\<newline>'' @
     ''https://h/sq/9\<newline>https://h/sq/10\<newline>''"

definition live_site :: "jsstring \<Rightarrow> get_outcome" where
  "live_site url =
     (if url = js ''https://h/expire/9/live'' then Response 200 None (Complete [ten_segments])
      else Response 200 None (Complete [map char_of url]))"

text \<open>
  A site with a chain of three redirects in front of a segment; the body of the
  segment comes in two \<open>data\<close> events.
\<close>

definition redirect_site :: "jsstring \<Rightarrow> get_outcome" where
  "redirect_site url =
     (if url = js ''https://h/0'' then Response 302 (Some (js ''https://h/1'')) (Complete [])
      else if url = js ''https://h/1'' then Response 301 (Some (js ''https://h/2'')) (Complete [])
      else if url = js ''https://h/2'' then Response 307 (Some (js ''https://h/3'')) (Complete [])
      else if url = js ''https://h/3'' then Response 200 None (Complete [''seg'', ''ment''])
      else Response 404 None (Complete []))"

text \<open>
  A site whose playlist has one segment, with a sequence number beyond \<open>2^53\<close>.
\<close>

definition far_site :: "jsstring \<Rightarrow> get_outcome" where
  "far_site url =
     (if url = js ''https://h/expire/9/live''
      then Response 200 None (Complete [''https://h/sq/9007199254740993\<newline>''])
      else Response 200 None (Complete [map char_of url]))"

text \<open>
  A playlist of three segments, and the stream object as the constructor returns it
  for the default cache count.
\<close>

definition three_segments :: buffer where
  "three_segments = ''https://h/sq/1\<newline>https://h/sq/2\<newline>https://h/sq/3\<newline>''"

definition fresh :: controller where
  "fresh = \<lparr>segmentCacheCount = 3, resolvedUrl = None, urlExpire = Finite 0,
             startSequence = None, loadInterval = True, isLoadingSegments = False,
             piped = [], events = []\<rparr>"

section \<open>Properties of the parser\<close>

lemmas parser_defs = parse_chunks_def finish_def parser_write_def new_parser_def
  toString_utf8_def parseLine_def match_tag_def trim_def is_space_def is_tag_char_def
  is_line_terminator_def utf16_def

lemma split_nl_not_Nil: "split_nl s \<noteq> []"
  by (induction s) (auto split: list.splits)

lemma split_nl_append:
  "split_nl (a @ b) = butlast (split_nl a) @ (last (split_nl a) @ hd (split_nl b)) # tl (split_nl b)"
proof (induction a)
  case Nil
  have "split_nl b \<noteq> []" by (rule split_nl_not_Nil)
  then show ?case by (cases "split_nl b") simp_all
next
  case (Cons c a)
  have ne: "split_nl a \<noteq> []" by (rule split_nl_not_Nil)
  show ?case
  proof (cases "c = 0x0A")
    case True
    with Cons ne show ?thesis by simp
  next
    case False
    obtain l ls where a: "split_nl a = l # ls" using ne by (cases "split_nl a") auto
    obtain m ms where ab: "split_nl (a @ b) = m # ms"
      using split_nl_not_Nil [of "a @ b"] by (cases "split_nl (a @ b)") auto
    from Cons a ab False show ?thesis
      by (cases ls) (auto split: if_splits)
  qed
qed


lemma parser_write_text:
  assumes "lastLine p = last (split_nl t)"
    and "emitted p = concat (map parseLine (butlast (split_nl t)))"
  shows "lastLine (parser_write p c) = last (split_nl (t @ toString_utf8 c))
    \<and> emitted (parser_write p c)
        = concat (map parseLine (butlast (split_nl (t @ toString_utf8 c))))"
proof -
  define M where "M = split_nl (toString_utf8 c)"
  define X where "X = (last (split_nl t) @ hd M) # tl M"
  have M: "M \<noteq> []" unfolding M_def by (rule split_nl_not_Nil)
  have lines: "(if lastLine p \<noteq> [] then (lastLine p @ hd M) # tl M else M) = X"
    using M assms(1) by (simp add: X_def)
  have whole: "split_nl (t @ toString_utf8 c) = butlast (split_nl t) @ X"
    by (simp add: split_nl_append X_def M_def)
  have X: "X \<noteq> []" by (simp add: X_def)
  have w: "parser_write p c = \<lparr>lastLine = last X,
      emitted = emitted p @ concat (map parseLine (butlast X))\<rparr>"
    unfolding parser_write_def Let_def M_def [symmetric] lines by (rule refl)
  show ?thesis
    using X assms(2) by (simp add: w whole butlast_append)
qed

lemma foldl_parser_write:
  assumes "lastLine p = last (split_nl t)"
    and "emitted p = concat (map parseLine (butlast (split_nl t)))"
  shows "lastLine (foldl parser_write p cs) = last (split_nl (t @ concat (map toString_utf8 cs)))
    \<and> emitted (foldl parser_write p cs)
        = concat (map parseLine (butlast (split_nl (t @ concat (map toString_utf8 cs)))))"
  using assms
proof (induction cs arbitrary: p t)
  case Nil
  then show ?case by simp
next
  case (Cons c cs)
  from parser_write_text [OF Cons.prems, of c]
  have "lastLine (parser_write p c) = last (split_nl (t @ toString_utf8 c))"
    and "emitted (parser_write p c)
        = concat (map parseLine (butlast (split_nl (t @ toString_utf8 c))))"
    by simp_all
  from Cons.IH [OF this] show ?case by simp
qed

lemma parse_chunks_text:
  "parse_chunks cs = concat (map parseLine (split_nl (concat (map toString_utf8 cs)))) @ [End]"
proof -
  define T where "T = split_nl (concat (map toString_utf8 cs))"
  have T: "T \<noteq> []" unfolding T_def by (rule split_nl_not_Nil)
  have "lastLine (foldl parser_write new_parser cs) = last T
    \<and> emitted (foldl parser_write new_parser cs) = concat (map parseLine (butlast T))"
    using foldl_parser_write [of new_parser "[]" cs] by (simp add: new_parser_def T_def)
  then have "parse_chunks cs = concat (map parseLine (butlast T)) @ parseLine (last T) @ [End]"
    by (simp add: parse_chunks_def finish_def)
  moreover have "concat (map parseLine (butlast T @ [last T]))
      = concat (map parseLine (butlast T)) @ parseLine (last T)"
    by simp
  then have "concat (map parseLine T) = concat (map parseLine (butlast T)) @ parseLine (last T)"
    by (simp only: append_butlast_last_id [OF T])
  ultimately show ?thesis by (simp add: T_def)
qed

lemma utf8_decode_ascii:
  "\<forall>b\<in>set bs. b < 0x80 \<Longrightarrow> utf8_decode 0 0 0x80 0xBF bs = bs"
  by (induction bs) simp_all

lemma toString_utf8_ascii:
  "\<forall>c\<in>set chunk. (of_char c :: nat) < 0x80 \<Longrightarrow> toString_utf8 chunk = map of_char chunk"
  by (simp add: toString_utf8_def utf8_decode_ascii)

lemma ascii_chunks_decode:
  assumes "\<forall>c\<in>set (concat chunks). (of_char c :: nat) < 0x80"
  shows "toString_utf8 (concat chunks) = concat (map toString_utf8 chunks)"
proof -
  have "\<forall>chunk\<in>set chunks. toString_utf8 chunk = map of_char chunk"
    using assms by (auto intro!: toString_utf8_ascii)
  then have "concat (map toString_utf8 chunks) = concat (map (map of_char) chunks)"
    by (induction chunks) simp_all
  also have "\<dots> = map of_char (concat chunks)" by (simp add: map_concat)
  also have "\<dots> = toString_utf8 (concat chunks)"
    using assms by (simp add: toString_utf8_ascii)
  finally show ?thesis by simp
qed

text \<open>
  Claim C2, as amended.  For every playlist document and every way of splitting its
  bytes into successive feed calls, in the middle of a line or not, such that decoding
  the chunks one by one gives the text of the whole document (no multi-byte UTF-8
  sequence is cut; by \<open>ascii_chunks_decode\<close> this is so for every split of an ASCII
  document), feeding the chunks to the parser and then finishing yields exactly the
  events of feeding the whole document at once, in the same order.
\<close>

theorem feed_split_invariant:
  assumes "toString_utf8 (concat chunks) = concat (map toString_utf8 chunks)"
  shows "parse_chunks chunks = parse_chunks [concat chunks]"
  using assms by (simp add: parse_chunks_text)

text \<open>
  The document \<open>#EXTM3U\nitem1\n#EXT-X-X:5\nitem2\<close>, split inside \<open>item1\<close>.
\<close>

theorem feed_split_invariant_witness:
  "parse_chunks [''#EXTM3U\<newline>ite'', ''m1\<newline>#EXT-X-X:5\<newline>item2'']
     = parse_chunks [''#EXTM3U\<newline>item1\<newline>#EXT-X-X:5\<newline>item2'']
   \<and> parse_chunks [''#EXTM3U\<newline>ite'', ''m1\<newline>#EXT-X-X:5\<newline>item2'']
     = [Tag (js ''EXTM3U'') None, Item (js ''item1''),
        Tag (js ''EXT-X-X'') (Some (js ''5'')), Item (js ''item2''), End]"
proof -
  have h: "toString_utf8 (concat [''#EXTM3U\<newline>ite'', ''m1\<newline>#EXT-X-X:5\<newline>item2''])
      = concat (map toString_utf8 [''#EXTM3U\<newline>ite'', ''m1\<newline>#EXT-X-X:5\<newline>item2''])"
    by (simp add: toString_utf8_def)
  have "parse_chunks [''#EXTM3U\<newline>item1\<newline>#EXT-X-X:5\<newline>item2'']
      = [Tag (js ''EXTM3U'') None, Item (js ''item1''),
         Tag (js ''EXT-X-X'') (Some (js ''5'')), Item (js ''item2''), End]"
    by (simp add: parser_defs)
  with feed_split_invariant [OF h] show ?thesis by simp
qed

text \<open>
  The claim as stated fails where a chunk boundary cuts a character: the two bytes of
  U+00E9 fed one by one give an item of two U+FFFD, fed at once the item U+00E9.
\<close>

theorem feed_split_counterexample:
  "parse_chunks [[CHR 0xC3], [CHR 0xA9]] \<noteq> parse_chunks [concat [[CHR 0xC3], [CHR 0xA9]]]"
  by (simp add: parser_defs)

lemma match_tag_directive:
  assumes "nm \<noteq> []" and "\<forall>c\<in>set nm. is_tag_char c"
    and "rest = [] \<or> \<not> is_tag_char (hd rest)"
  shows "match_tag (js ''#EXT'' @ nm @ rest) =
    Some (js ''EXT'' @ nm,
      case rest of [] \<Rightarrow> None
      | c # cs \<Rightarrow> if c = 0x3A then Some (takeWhile (\<lambda>c. \<not> is_line_terminator c) cs) else None)"
proof -
  have tw: "takeWhile is_tag_char (nm @ rest) = nm"
    using assms(2,3) by (cases rest) (simp_all add: takeWhile_tail)
  have dw: "dropWhile is_tag_char (nm @ rest) = rest"
    using assms(2,3) by (cases rest) (simp_all add: dropWhile_append3)
  show ?thesis
    using assms(1) by (simp add: match_tag_def tw dw split: list.splits)
qed

lemma match_tag_no_hash: "take 1 line \<noteq> js ''#'' \<Longrightarrow> match_tag line = None"
  by (cases line) (auto simp: match_tag_def)

lemma trim_Nil_iff: "trim line = [] \<longleftrightarrow> (\<forall>c\<in>set line. is_space c)"
proof -
  have "trim line = [] \<longleftrightarrow> (\<forall>x\<in>set (dropWhile is_space line). is_space x)"
    by (simp add: trim_def)
  also have "\<dots> \<longleftrightarrow> dropWhile is_space line = []"
  proof
    assume all: "\<forall>x\<in>set (dropWhile is_space line). is_space x"
    show "dropWhile is_space line = []"
    proof (rule ccontr)
      assume ne: "dropWhile is_space line \<noteq> []"
      then have "\<not> is_space (hd (dropWhile is_space line))" by (rule hd_dropWhile)
      moreover have "hd (dropWhile is_space line) \<in> set (dropWhile is_space line)"
        using ne by simp
      ultimately show False using all by blast
    qed
  next
    assume "dropWhile is_space line = []"
    then show "\<forall>x\<in>set (dropWhile is_space line). is_space x"
      by (simp del: dropWhile_eq_Nil_conv)
  qed
  also have "\<dots> \<longleftrightarrow> (\<forall>c\<in>set line. is_space c)" by simp
  finally show ?thesis .
qed

lemma blank_no_hash: "trim line = [] \<Longrightarrow> take 1 line \<noteq> js ''#''"
  by (cases line) (auto simp: trim_Nil_iff is_space_def)

text \<open>
  Claim C9.  Every complete line is classified as follows.  A line that matches the
  directive pattern (\<open>#EXT\<close>, one or more characters of \<open>[A-Z0-9-]\<close>, and a rest that
  does not go on with such a character) emits one tag event: the name is the text
  from \<open>EXT\<close> to the rest, the payload is what follows a colon at the head of the rest
  up to a line terminator, and \<open>null\<close> when it is absent.  Otherwise a line that is
  not blank (not empty, white space trimmed) and does not start with \<open>#\<close> emits one
  item event with the trimmed line.  A blank line and a comment line (one that starts
  with \<open>#\<close> without matching the directive pattern) emit nothing.
\<close>

theorem parseLine_classification:
  "(nm \<noteq> [] \<and> (\<forall>c\<in>set nm. is_tag_char c) \<and> (rest = [] \<or> \<not> is_tag_char (hd rest))
      \<longrightarrow> parseLine (js ''#EXT'' @ nm @ rest) =
          [Tag (js ''EXT'' @ nm)
             (if take 1 rest = js '':'' \<and> takeWhile (\<lambda>c. \<not> is_line_terminator c) (tl rest) \<noteq> []
              then Some (takeWhile (\<lambda>c. \<not> is_line_terminator c) (tl rest)) else None)])
   \<and> (take 1 item_line \<noteq> js ''#'' \<and> trim item_line \<noteq> []
      \<longrightarrow> parseLine item_line = [Item (trim item_line)])
   \<and> (trim blank_line = [] \<longrightarrow> parseLine blank_line = [])
   \<and> (take 1 comment_line = js ''#''
        \<and> (take 4 comment_line \<noteq> js ''#EXT'' \<or> drop 4 comment_line = []
            \<or> \<not> is_tag_char (hd (drop 4 comment_line)))
      \<longrightarrow> parseLine comment_line = [])"
proof (intro conjI impI)
  assume "nm \<noteq> [] \<and> (\<forall>c\<in>set nm. is_tag_char c) \<and> (rest = [] \<or> \<not> is_tag_char (hd rest))"
  then have "match_tag (js ''#EXT'' @ nm @ rest) =
    Some (js ''EXT'' @ nm,
      case rest of [] \<Rightarrow> None
      | c # cs \<Rightarrow> if c = 0x3A then Some (takeWhile (\<lambda>c. \<not> is_line_terminator c) cs) else None)"
    by (intro match_tag_directive) simp_all
  then show "parseLine (js ''#EXT'' @ nm @ rest) =
          [Tag (js ''EXT'' @ nm)
             (if take 1 rest = js '':'' \<and> takeWhile (\<lambda>c. \<not> is_line_terminator c) (tl rest) \<noteq> []
              then Some (takeWhile (\<lambda>c. \<not> is_line_terminator c) (tl rest)) else None)]"
    by (cases rest) (simp_all add: parseLine_def)
next
  assume "take 1 item_line \<noteq> js ''#'' \<and> trim item_line \<noteq> []"
  then show "parseLine item_line = [Item (trim item_line)]"
    by (simp add: parseLine_def match_tag_no_hash)
next
  assume blank: "trim blank_line = []"
  then have "match_tag blank_line = None"
    by (intro match_tag_no_hash blank_no_hash)
  with blank show "parseLine blank_line = []"
    by (simp add: parseLine_def)
next
  assume "take 1 comment_line = js ''#''
        \<and> (take 4 comment_line \<noteq> js ''#EXT'' \<or> drop 4 comment_line = []
            \<or> \<not> is_tag_char (hd (drop 4 comment_line)))"
  then have "match_tag comment_line = None \<and> take 1 comment_line = js ''#''"
    by (auto simp: match_tag_def takeWhile_eq_Nil_iff)
  then show "parseLine comment_line = []"
    by (simp add: parseLine_def)
qed

theorem parseLine_classification_witness:
  "parseLine (js ''#EXT-X-X:5'') = [Tag (js ''EXT-X-X'') (Some (js ''5''))]
   \<and> parseLine (js '' item1 '') = [Item (js ''item1'')]
   \<and> parseLine (js ''  '') = []
   \<and> parseLine (js ''# comment'') = []"
  using parseLine_classification [of "js ''-X-X''" "js '':5''" "js '' item1 ''" "js ''  ''" "js ''# comment''"]
  by (simp add: is_tag_char_def is_line_terminator_def trim_def is_space_def)

section \<open>Properties of the loader\<close>

lemmas platform_defs = static_def scripted_def legacy_protocol_def is_scheme_char_def
  download_def settled_def downloadBuffer.simps

lemma downloadTries_success:
  "download pf url n = (Inr stream, n') \<Longrightarrow>
     downloadTries pf warningCallback url tryCount (n, l) = (Inr stream, n', l)"
  by (subst downloadTries.simps) simp

lemma downloadTries_last:
  "download pf url n = (Inl err, n') \<Longrightarrow> tryCount \<le> 1 \<Longrightarrow>
     downloadTries pf (Some cb) url tryCount (n, l) =
       (Inl (ExhaustedRetries err), n', cb attempt_failed err l)"
  by (subst downloadTries.simps) simp

lemma downloadTries_again:
  "download pf url n = (Inl err, n') \<Longrightarrow> 1 < tryCount \<Longrightarrow>
     downloadTries pf (Some cb) url tryCount (n, l) =
       downloadTries pf (Some cb) url (tryCount - 1)
         (n', cb attempt_failed err l)"
  by (subst downloadTries.simps) simp

text \<open>
  Claim C3.  For every url and warning callback: when the download fails twice and
  succeeds at the third attempt, \<open>downloadTries\<close> with 3 tries succeeds, and the
  callback has been called exactly twice, once for each failure and with its error;
  when the download fails at every attempt, \<open>downloadTries\<close> with 2 tries fails with
  \<open>ExhaustedRetries\<close> of the last error, and the callback has been called exactly
  twice.  The attempts follow one another (each starts in the world the one before
  has left), with nothing in between, and a failed attempt with tries left goes on
  with one try less.
\<close>

theorem downloadTries_retries:
  "(download pf url n0 = (Inl e1, n1) \<and> download pf url n1 = (Inl e2, n2)
      \<and> download pf url n2 = (Inr stream, n3)
     \<longrightarrow> downloadTries pf (Some cb) url 3 (n0, l) =
          (Inr stream, n3,
           cb attempt_failed e2
             (cb attempt_failed e1 l)))
   \<and> (download pf url n0 = (Inl e1, n1) \<and> download pf url n1 = (Inl e2, n2)
     \<longrightarrow> downloadTries pf (Some cb) url 2 (n0, l) =
          (Inl (ExhaustedRetries e2), n2,
           cb attempt_failed e2
             (cb attempt_failed e1 l)))
   \<and> (download pf url n0 = (Inl e1, n1) \<and> 1 < tryCount
     \<longrightarrow> downloadTries pf (Some cb) url tryCount (n0, l) =
          downloadTries pf (Some cb) url (tryCount - 1)
            (n1, cb attempt_failed e1 l))"
proof (intro conjI impI)
  assume a: "download pf url n0 = (Inl e1, n1) \<and> download pf url n1 = (Inl e2, n2)
      \<and> download pf url n2 = (Inr stream, n3)"
  show "downloadTries pf (Some cb) url 3 (n0, l) =
          (Inr stream, n3,
           cb attempt_failed e2
             (cb attempt_failed e1 l))"
    using a by (simp add: downloadTries_again downloadTries_success)
next
  assume a: "download pf url n0 = (Inl e1, n1) \<and> download pf url n1 = (Inl e2, n2)"
  show "downloadTries pf (Some cb) url 2 (n0, l) =
          (Inl (ExhaustedRetries e2), n2,
           cb attempt_failed e2
             (cb attempt_failed e1 l))"
    using a by (simp add: downloadTries_again downloadTries_last)
next
  assume "download pf url n0 = (Inl e1, n1) \<and> 1 < tryCount"
  then show "downloadTries pf (Some cb) url tryCount (n0, l) =
          downloadTries pf (Some cb) url (tryCount - 1)
            (n1, cb attempt_failed e1 l)"
    by (simp add: downloadTries_again)
qed

text \<open>
  A scripted server that fails twice and then answers, and one that fails three times;
  the callback counts its calls.
\<close>

theorem downloadTries_retries_witness:
  "downloadTries (scripted [] 0) (Some (\<lambda>msg e calls. Suc calls)) (js ''https://h/sq/1'') 3
     (\<lparr>world = [RequestError (js ''ETIMEDOUT''), Response 503 None (Complete []),
                Response 200 None (Complete [''seg''])], requests = []\<rparr>, 0)
   = (Inr ''seg'',
      \<lparr>world = [], requests = [js ''https://h/sq/1'', js ''https://h/sq/1'', js ''https://h/sq/1'']\<rparr>,
      2)
   \<and> downloadTries (scripted [] 0) (Some (\<lambda>msg e calls. Suc calls)) (js ''https://h/sq/1'') 2
     (\<lparr>world = [RequestError (js ''ETIMEDOUT''), Response 503 None (Complete []),
                Response 503 None (Complete [])], requests = []\<rparr>, 0)
   = (Inl (ExhaustedRetries (BadStatus 503)),
      \<lparr>world = [Response 503 None (Complete [])],
       requests = [js ''https://h/sq/1'', js ''https://h/sq/1'']\<rparr>,
      2)"
proof -
  let ?P = "scripted [] 0 :: get_outcome list platform"
  let ?u = "js ''https://h/sq/1''"
  let ?cb = "\<lambda>(msg :: jsstring) (e :: jserror) calls. Suc calls"
  have d1: "download ?P ?u \<lparr>world = [RequestError (js ''ETIMEDOUT''), Response 503 None (Complete []),
        Response 200 None (Complete [''seg''])], requests = []\<rparr>
      = (Inl (TransportError (js ''ETIMEDOUT'')),
         \<lparr>world = [Response 503 None (Complete []), Response 200 None (Complete [''seg''])],
          requests = [?u]\<rparr>)"
    by (simp add: platform_defs)
  have d2: "download ?P ?u
        \<lparr>world = [Response 503 None (Complete []), Response 200 None (Complete [''seg''])],
          requests = [?u]\<rparr>
      = (Inl (BadStatus 503),
         \<lparr>world = [Response 200 None (Complete [''seg''])], requests = [?u, ?u]\<rparr>)"
    by (simp add: platform_defs)
  have d3: "download ?P ?u \<lparr>world = [Response 200 None (Complete [''seg''])], requests = [?u, ?u]\<rparr>
      = (Inr ''seg'', \<lparr>world = [], requests = [?u, ?u, ?u]\<rparr>)"
    by (simp add: platform_defs)
  have e1: "download ?P ?u \<lparr>world = [RequestError (js ''ETIMEDOUT''), Response 503 None (Complete []),
        Response 503 None (Complete [])], requests = []\<rparr>
      = (Inl (TransportError (js ''ETIMEDOUT'')),
         \<lparr>world = [Response 503 None (Complete []), Response 503 None (Complete [])],
          requests = [?u]\<rparr>)"
    by (simp add: platform_defs)
  have e2: "download ?P ?u
        \<lparr>world = [Response 503 None (Complete []), Response 503 None (Complete [])],
          requests = [?u]\<rparr>
      = (Inl (BadStatus 503),
         \<lparr>world = [Response 503 None (Complete [])], requests = [?u, ?u]\<rparr>)"
    by (simp add: platform_defs)
  from downloadTries_retries [where pf = "?P" and url = "?u" and cb = "?cb" and l = 0
      and tryCount = 3, THEN conjunct1, rule_format, OF conjI [OF d1 conjI [OF d2 d3]]]
    downloadTries_retries [where pf = "?P" and url = "?u" and cb = "?cb" and l = 0
      and tryCount = 3, THEN conjunct2, THEN conjunct1, rule_format, OF conjI [OF e1 e2]]
  show ?thesis by simp
qed

lemma settled_early [simp]: "settled (Some first) r = first" "settled None r = r"
  by (simp_all add: settled_def)

lemma downloadBuffer_not_https:
  "parse_protocol pf url \<noteq> Some (js ''https:'') \<Longrightarrow>
     fst (downloadBuffer pf url redirectCount maxRedirects n) = Inl (InvalidUrl url)"
  by (subst downloadBuffer.simps)
    (simp add: Let_def split: prod.splits get_outcome.splits option.splits response_body.splits)


lemma downloadBuffer_requests_default:
  "downloadBuffer pf url redirectCount 3 n = (r, n') \<Longrightarrow>
     \<exists>more. requests n' = requests n @ more"
proof (induction k \<equiv> "nat (3 - redirectCount)" arbitrary: url redirectCount n r n')
  case 0
  then have "redirectCount \<ge> 3 - 1" by simp
  with "0.prems" show ?case
    by (subst (asm) downloadBuffer.simps)
      (auto simp: Let_def split: prod.splits get_outcome.splits option.splits
        response_body.splits if_splits)
next
  case (Suc k)
  have IH: "downloadBuffer pf l (redirectCount + 1) 3 m = (r', m') \<Longrightarrow>
      \<exists>more. requests m' = requests m @ more" for l m r' m'
    using Suc.hyps(1) [of "redirectCount + 1" l m r' m'] Suc.hyps(2) by simp
  from Suc.prems show ?case
    by (subst (asm) downloadBuffer.simps)
      (auto simp: Let_def split: prod.splits get_outcome.splits option.splits
        response_body.splits if_splits dest!: IH)
qed

lemma downloadBuffer_sends:
  assumes "https_get pf url (world n) = (out, w)" and "\<forall>m. out \<noteq> GetThrows m"
    and "downloadBuffer pf url redirectCount maxRedirects n = (r, n')"
  shows "\<exists>more. requests n' = requests n @ url # more"
  using assms(3,1,2)
  by (subst (asm) downloadBuffer.simps)
    (auto simp: Let_def split: prod.splits get_outcome.splits option.splits
      response_body.splits if_splits dest!: downloadBuffer_requests_default)

lemma redirect_followed:
  assumes "parse_protocol pf url = Some (js ''https:'')"
    and "https_get pf url (world n) = (Response statusCode (Some l) body, w)"
    and "statusCode \<in> {301, 302, 303, 307}" and "redirectCount < 2"
  shows "downloadBuffer pf url redirectCount 3 n
    = downloadBuffer pf l (redirectCount + 1) 3 \<lparr>world = w, requests = requests n @ [url]\<rparr>"
  using assms by (subst downloadBuffer.simps) (auto simp: Let_def split: prod.splits)

lemma redirect_rejected:
  assumes "parse_protocol pf url = Some (js ''https:'')"
    and "https_get pf url (world n) = (Response statusCode location body, w)"
    and "statusCode \<in> {301, 302, 303, 307}" and "2 \<le> redirectCount"
  shows "downloadBuffer pf url redirectCount 3 n
    = (Inl TooManyRedirects, \<lparr>world = w, requests = requests n @ [url]\<rparr>)"
  using assms by (subst downloadBuffer.simps) (auto simp: Let_def)

text \<open>
  Claim C4, evaluated.  \<open>redirect_site\<close> puts a chain of three redirects in front of a
  segment.  From the head of the chain \<open>download\<close> fails with \<open>TooManyRedirects\<close> at the
  third redirect and never requests the segment, although \<open>maxRedirects\<close> is 3; with
  two redirects in front (from the second url of the chain) the segment is fetched.
  In general a redirect is followed while fewer than two have been followed
  (\<open>redirect_followed\<close>) and refused from then on (\<open>redirect_rejected\<close>).
\<close>

theorem redirect_bound_evaluation:
  "download (static [] redirect_site) (js ''https://h/0'') \<lparr>world = (), requests = []\<rparr>
     = (Inl TooManyRedirects,
        \<lparr>world = (), requests = [js ''https://h/0'', js ''https://h/1'', js ''https://h/2'']\<rparr>)
   \<and> download (static [] redirect_site) (js ''https://h/1'') \<lparr>world = (), requests = []\<rparr>
     = (Inr ''segment'',
        \<lparr>world = (), requests = [js ''https://h/1'', js ''https://h/2'', js ''https://h/3'']\<rparr>)"
  by (simp add: platform_defs redirect_site_def)

text \<open>
  Claim C5, evaluated.  A url without a scheme is not an https url.  \<open>download\<close>
  fails with \<open>InvalidUrl\<close>, and the request is sent all the same, because
  \<open>downloadBuffer\<close> goes on after \<open>reject\<close>.  In general every url that is not
  https fails with \<open>InvalidUrl\<close> (\<open>downloadBuffer_not_https\<close>), and its request is
  sent unless \<open>https.get\<close> itself throws (\<open>downloadBuffer_sends\<close>).
\<close>

theorem not_https_evaluation:
  "parse_protocol (scripted [] 0) (js ''example.com/seg.ts'') = None
   \<and> download (scripted [] 0) (js ''example.com/seg.ts'')
       \<lparr>world = [RequestError (js ''ECONNREFUSED'')], requests = []\<rparr>
     = (Inl (InvalidUrl (js ''example.com/seg.ts'')),
        \<lparr>world = [], requests = [js ''example.com/seg.ts'']\<rparr>)"
  by (simp add: platform_defs)

section \<open>Properties of the numbers\<close>

lemmas number_defs = round_double_def plus_number_def times_number_def exceeds_def
  digits_value_def parseInt_def reads_back_def shortest_def exponent_form_def
  number_string_def bit_length.simps decimal.simps Let_def

lemma bit_length_le: "v < 2 ^ k \<Longrightarrow> bit_length v \<le> k"
proof (induction k arbitrary: v)
  case 0
  then show ?case by (simp add: bit_length.simps)
next
  case (Suc k)
  show ?case
  proof (cases "v = 0")
    case True
    then show ?thesis by (simp add: bit_length.simps)
  next
    case False
    from Suc.prems have "v div 2 < 2 ^ k" by simp
    from Suc.IH [OF this] False show ?thesis by (subst bit_length.simps) simp
  qed
qed

lemma bit_length_less: "bit_length v \<le> k \<Longrightarrow> v < 2 ^ k"
proof (induction k arbitrary: v)
  case 0
  then show ?case by (subst (asm) bit_length.simps) (simp split: if_splits)
next
  case (Suc k)
  show ?case
  proof (cases "v = 0")
    case True
    then show ?thesis by simp
  next
    case False
    with Suc.prems have "bit_length (v div 2) \<le> k"
      by (subst (asm) bit_length.simps) simp
    from Suc.IH [OF this] show ?thesis by simp
  qed
qed

lemma round_double_safe: "v < 2 ^ 53 \<Longrightarrow> round_double v = Finite v"
  by (simp add: round_double_def bit_length_le)

lemma round_double_large:
  assumes "2 ^ 53 \<le> c" and "round_double c = Finite x"
  shows "2 ^ 53 \<le> x"
proof -
  define b where "b = bit_length c"
  have b: "\<not> b \<le> 53" using assms(1) bit_length_less [of c 53] by (auto simp: b_def)
  define e where "e = b - 53"
  have e: "1 \<le> e" and be: "b - 1 = 52 + e" using b by (simp_all add: e_def)
  have "\<not> c < 2 ^ (b - 1)"
  proof
    assume "c < 2 ^ (b - 1)"
    then have "bit_length c \<le> b - 1" by (rule bit_length_le)
    with b show False by (simp add: b_def)
  qed
  moreover have "(2::nat) ^ (b - 1) = 2 ^ 52 * 2 ^ e" by (simp only: be power_add)
  ultimately have c: "(2::nat) ^ 52 * 2 ^ e \<le> c" by (simp only: not_less)
  define q where "q = c div 2 ^ e"
  have q: "2 ^ 52 \<le> q" using c by (simp add: q_def less_eq_div_iff_mult_less_eq)
  have "q * 2 ^ e \<le> x"
    using assms(2) b
    by (auto simp: round_double_def b_def [symmetric] e_def [symmetric] Let_def
        q_def [symmetric] split: if_splits)
  moreover have "(2::nat) ^ 1 \<le> 2 ^ e" using e by (intro power_increasing) simp_all
  then have "(2::nat) ^ 52 * 2 ^ 1 \<le> q * 2 ^ e" using q by (intro mult_le_mono)
  ultimately show ?thesis by simp
qed

lemma reads_back_safe: "x < 2 ^ 53 \<Longrightarrow> reads_back x c \<longleftrightarrow> c = x"
proof
  assume x: "x < 2 ^ 53" and r: "reads_back x c"
  show "c = x"
  proof (cases "c < 2 ^ 53")
    case True
    with r show ?thesis by (simp add: reads_back_def round_double_safe)
  next
    case False
    then have "2 ^ 53 \<le> c" by simp
    from round_double_large [OF this] r x show ?thesis by (auto simp: reads_back_def)
  qed
next
  assume "x < 2 ^ 53" and "c = x"
  then show "reads_back x c" by (simp add: reads_back_def round_double_safe)
qed

lemma shortest_safe:
  assumes "x < 2 ^ 53"
  shows "shortest x = x"
proof -
  define valid where "valid = (\<lambda>e. reads_back x (x div 10 ^ e * 10 ^ e)
                    \<or> reads_back x ((x div 10 ^ e + 1) * 10 ^ e))"
  define es where "es = rev [0..<Suc (length (decimal x))]"
  have sh: "shortest x =
      (case find valid es of
         None \<Rightarrow> x
       | Some e \<Rightarrow>
          (let lo = x div 10 ^ e * 10 ^ e;
               hi = (x div 10 ^ e + 1) * 10 ^ e
           in if reads_back x lo \<and> reads_back x hi then
                (if x - lo < hi - x then lo
                 else if hi - x < x - lo then hi
                 else if even (x div 10 ^ e) then lo else hi)
              else if reads_back x lo then lo else hi))"
    unfolding shortest_def valid_def es_def by (rule refl)
  show ?thesis
  proof (cases "find valid es")
    case None
    then show ?thesis by (simp add: sh)
  next
    case (Some e)
    then have "valid e" by (auto simp: find_Some_iff)
    then have "reads_back x (x div 10 ^ e * 10 ^ e)
        \<or> reads_back x ((x div 10 ^ e + 1) * 10 ^ e)"
      by (simp add: valid_def)
    then show ?thesis
      by (auto simp: sh Some Let_def reads_back_safe [OF assms])
  qed
qed

lemma number_string_safe: "x < 2 ^ 53 \<Longrightarrow> number_string (Finite x) = decimal x"
proof -
  assume x: "x < 2 ^ 53"
  have "(2::nat) ^ 53 < 10 ^ 21" by simp
  with x have "x < 10 ^ 21" by (rule less_trans)
  with x show ?thesis by (simp add: number_string_def shortest_safe)
qed

lemma round_double_53: "round_double 9007199254740992 = Finite 9007199254740992"
  by (simp add: number_defs)

lemma number_string_53: "number_string (Finite 9007199254740992) = decimal 9007199254740992"
  by (simp add: number_defs)

text \<open>
  A sequence number below \<open>2^53\<close> and its successor are exact, and the successor is
  printed as its decimal numeral.
\<close>

lemma next_sequence_safe:
  assumes "digits_value ds < 2 ^ 53"
  shows "number_string (plus_number (parseInt ds) 1) = decimal (digits_value ds + 1)"
proof (cases "digits_value ds + 1 < 2 ^ 53")
  case True
  with assms show ?thesis
    by (simp add: parseInt_def plus_number_def round_double_safe number_string_safe)
next
  case False
  with assms have "digits_value ds + 1 = 9007199254740992" by simp
  with assms show ?thesis
    by (simp add: parseInt_def plus_number_def round_double_safe round_double_53
        number_string_53)
qed

section \<open>Properties of the stream\<close>

lemma wake_fields [simp]:
  "segmentCacheCount (wake pf n s) = segmentCacheCount s"
  "resolvedUrl (wake pf n s) = resolvedUrl s"
  "urlExpire (wake pf n s) = urlExpire s"
  "startSequence (wake pf n s) = startSequence s"
  "isLoadingSegments (wake pf n s) = isLoadingSegments s"
  "piped (wake pf n s) = piped s"
  "events (wake pf n s) = events s"
  "loadInterval (wake pf n s) = (loadInterval s \<and> \<not> closed pf (world n))"
  by (auto simp: wake_def)

lemma wake_open: "\<not> closed pf (world n) \<Longrightarrow> wake pf n s = s"
  by (simp add: wake_def)

lemma downloadTries_warn_frame:
  "downloadTries pf (Some warn) url tryCount (n, s) = (r, n', s') \<Longrightarrow>
     \<exists>ws. s' = s\<lparr>events := events s @ ws\<rparr>"
proof (induction pf "Some warn :: (jsstring \<Rightarrow> jserror \<Rightarrow> controller \<Rightarrow> controller) option"
    url tryCount "(n, s)" arbitrary: n s rule: downloadTries.induct)
  case (1 pf url tryCount n s)
  show ?case
  proof (cases "download pf url n")
    case (Pair res n1)
    show ?thesis
    proof (cases res)
      case (Inr stream)
      with Pair "1.prems" have "s' = s" by (simp add: downloadTries_success)
      then have "s' = s\<lparr>events := events s @ []\<rparr>" by simp
      then show ?thesis by blast
    next
      case (Inl err)
      show ?thesis
      proof (cases "tryCount \<le> 1")
        case True
        with Pair Inl "1.prems" have "s' = warn attempt_failed err s"
          by (simp add: downloadTries_last)
        then have "s' = s\<lparr>events := events s @ [Warning attempt_failed (Some err)]\<rparr>"
          by (simp add: warn_def emit_def)
        then show ?thesis by blast
      next
        case False
        with Pair Inl "1.prems"
        have rec: "downloadTries pf (Some warn) url (tryCount - 1) (n1, warn attempt_failed err s)
            = (r, n', s')"
          by (simp add: downloadTries_again)
        have "\<exists>ws. s' = (warn attempt_failed err s)
            \<lparr>events := events (warn attempt_failed err s) @ ws\<rparr>"
          using "1.hyps" [OF Pair [symmetric] Inl refl False] rec by simp
        then obtain ws where "s' = (warn attempt_failed err s)
            \<lparr>events := events (warn attempt_failed err s) @ ws\<rparr>" by blast
        then have "s' = s\<lparr>events := events s @ (Warning attempt_failed (Some err) # ws)\<rparr>"
          by (simp add: warn_def emit_def)
        then show ?thesis by blast
      qed
    qed
  qed
qed


lemma resolveUrl_frame:
  assumes "resolveUrl pf (n, s) = (r, n', s')"
  shows "isLoadingSegments s' = isLoadingSegments s" and "piped s' = piped s"
    and "startSequence s' = startSequence s" and "segmentCacheCount s' = segmentCacheCount s"
    and "events s' = events s" and "requests n' = requests n"
    and "loadInterval s' \<Longrightarrow> loadInterval s"
    and "(\<forall>w. \<not> closed pf w) \<Longrightarrow> loadInterval s' = loadInterval s"
  using assms
  by (auto simp: resolveUrl_def Let_def split: if_splits prod.splits sum.splits)

lemma loadPlaylist_frame:
  assumes "loadPlaylist pf (n, s) = (r, n', s')"
  shows "isLoadingSegments s' = isLoadingSegments s" and "piped s' = piped s"
    and "startSequence s' = startSequence s" and "segmentCacheCount s' = segmentCacheCount s"
    and "loadInterval s' \<Longrightarrow> loadInterval s"
    and "(\<forall>w. \<not> closed pf w) \<Longrightarrow> loadInterval s' = loadInterval s"
proof -
  have "isLoadingSegments s' = isLoadingSegments s \<and> piped s' = piped s
    \<and> startSequence s' = startSequence s \<and> segmentCacheCount s' = segmentCacheCount s
    \<and> (loadInterval s' \<longrightarrow> loadInterval s)
    \<and> ((\<forall>w. \<not> closed pf w) \<longrightarrow> loadInterval s' = loadInterval s)"
    using assms
    by (auto simp: loadPlaylist_def split: sum.splits prod.splits option.splits if_splits
        dest!: downloadTries_warn_frame)
  then show "isLoadingSegments s' = isLoadingSegments s" and "piped s' = piped s"
    and "startSequence s' = startSequence s" and "segmentCacheCount s' = segmentCacheCount s"
    and "loadInterval s' \<Longrightarrow> loadInterval s"
    and "(\<forall>w. \<not> closed pf w) \<Longrightarrow> loadInterval s' = loadInterval s"
    by simp_all
qed

lemma pipeSegments_frame:
  "pipeSegments pf items (n, s) = (r, n', s') \<Longrightarrow>
     startSequence s' = startSequence s \<and> segmentCacheCount s' = segmentCacheCount s
     \<and> (r \<noteq> Inr False \<longrightarrow> isLoadingSegments s' = isLoadingSegments s)
     \<and> (r = Inr False \<longrightarrow> \<not> isLoadingSegments s' \<and> \<not> loadInterval s')
     \<and> (\<exists>segs. piped s' = piped s @ segs \<and> length segs \<le> length items
           \<and> (r = Inr True \<longrightarrow> length segs = length items))"
proof (induction items arbitrary: n s)
  case Nil
  then show ?case by auto
next
  case (Cons item items)
  obtain res n1 s1 where d: "downloadTries pf (Some warn) item 3 (n, s) = (res, n1, s1)"
    by (cases "downloadTries pf (Some warn) item 3 (n, s)") auto
  from downloadTries_warn_frame [OF d] obtain ws where s1: "s1 = s\<lparr>events := events s @ ws\<rparr>"
    by blast
  show ?case
  proof (cases res)
    case (Inl e)
    with Cons.prems d s1 show ?thesis by auto
  next
    case (Inr segment)
    show ?thesis
    proof (cases "loadInterval (wake pf n1 s1)")
      case False
      with Cons.prems d s1 Inr show ?thesis by (auto simp: Let_def)
    next
      case True
      with Cons.prems d Inr
      have rec: "pipeSegments pf items
          (n1, (wake pf n1 s1)\<lparr>piped := piped (wake pf n1 s1) @ [segment]\<rparr>) = (r, n', s')"
        by (simp add: Let_def)
      from Cons.IH [OF rec] s1 show ?thesis by auto
    qed
  qed
qed

lemma pipeSegments_append:
  "pipeSegments pf (xs @ ys) (n, s) =
     (case pipeSegments pf xs (n, s) of
        (Inr True, n', s') \<Rightarrow> pipeSegments pf ys (n', s')
      | other \<Rightarrow> other)"
proof (induction xs arbitrary: n s)
  case Nil
  then show ?case by simp
next
  case (Cons x xs)
  then show ?case
    by (simp add: Let_def split: prod.splits sum.splits)
qed

lemma loadSegments_busy:
  "isLoadingSegments s \<Longrightarrow> loadSegments pf (n, s) = (Inr (), n, emit overlap_warning s)"
  by (simp add: loadSegments_def)

lemma loadSegments_error_keeps_flag:
  assumes "\<not> isLoadingSegments s" and "loadSegments pf (n, s) = (Inl e, n', s')"
  shows "isLoadingSegments s'"
proof -
  obtain r1 n1 s1 where p1: "resolveUrl pf (n, s\<lparr>isLoadingSegments := True\<rparr>) = (r1, n1, s1)"
    by (cases "resolveUrl pf (n, s\<lparr>isLoadingSegments := True\<rparr>)") auto
  have f1: "isLoadingSegments s1" using resolveUrl_frame(1) [OF p1] by simp
  show ?thesis
  proof (cases r1)
    case (Inl e1)
    with assms p1 f1 show ?thesis by (simp add: loadSegments_def)
  next
    case Inr1: (Inr u)
    obtain r2 n2 s2 where p2: "loadPlaylist pf (n1, s1) = (r2, n2, s2)"
      by (cases "loadPlaylist pf (n1, s1)") auto
    have f2: "isLoadingSegments s2" using loadPlaylist_frame(1) [OF p2] f1 by simp
    show ?thesis
    proof (cases r2)
      case (Inl e2)
      with assms p1 Inr1 p2 f2 show ?thesis by (simp add: loadSegments_def)
    next
      case Inr2: (Inr items)
      define kept where "kept = (if falsy (startSequence s2)
        then slice (- segmentCacheCount s2) items else items)"
      obtain r3 n3 s3 where p3: "pipeSegments pf kept (n2, s2) = (r3, n3, s3)"
        by (cases "pipeSegments pf kept (n2, s2)") auto
      from pipeSegments_frame [OF p3] f2
      have f3: "r3 \<noteq> Inr False \<longrightarrow> isLoadingSegments s3" by simp
      from assms p1 Inr1 p2 Inr2 p3 f3 show ?thesis
        by (auto simp: loadSegments_def Let_def kept_def
            split: if_splits sum.splits bool.splits)
    qed
  qed
qed


lemma slice_last: "0 < k \<Longrightarrow> slice (- k) xs = drop (length xs - nat k) xs"
proof -
  assume k: "0 < k"
  have "nat (max (int (length xs) - k) 0) = length xs - nat k" using k by linarith
  with k show ?thesis by (simp add: slice_def Let_def)
qed

lemma loadFn_busy:
  "isLoadingSegments s \<Longrightarrow> (loadFn pf ^^ k) (n, s)
     = (n, s\<lparr>events := events s @ replicate k overlap_warning\<rparr>)"
proof (induction k)
  case 0
  then show ?case by simp
next
  case (Suc k)
  then show ?case
    by (simp add: loadFn_def loadSegments_busy emit_def replicate_append_same)
qed

lemmas stream_defs = resolveUrl_def loadPlaylist_def falsy_def getExpireTime_def
  getSequenceID_def is_digit_def items_of_def warn_def emit_def number_defs

lemma constructor_rejects_iff:
  "constructor arg1 = Inl InvalidCacheDepth \<longleftrightarrow> (\<exists>c. arg1 = Some c \<and> c < 3 \<and> c \<noteq> 0)"
  by (cases arg1) (auto simp: constructor_def Let_def)

lemma constructor_v1_rejects_iff:
  "constructor_v1 arg1 = Inl InvalidCacheDepth \<longleftrightarrow> (\<exists>c. arg1 = Some c \<and> c < 3)"
  by (cases arg1) (auto simp: constructor_v1_def Let_def)

text \<open>
  Claim C8, evaluated.  The cache count 0 is below 3, and the constructor accepts it:
  \<open>arguments[1] || 3\<close> has made it 3 before the check.  A missing cache count gives 3
  and is accepted, 3 is accepted, 2 is refused; the constructor of the earlier version
  refuses 0.
\<close>

theorem cache_count_zero_evaluation:
  "constructor (Some 0) = Inr fresh \<and> constructor None = Inr fresh
   \<and> constructor (Some 3) = Inr fresh \<and> constructor (Some 2) = Inl InvalidCacheDepth
   \<and> constructor_v1 (Some 0) = Inl InvalidCacheDepth"
  by (simp add: constructor_def constructor_v1_def fresh_def)

text \<open>
  Claim C7.  When a refresh is in progress (\<open>isLoadingSegments\<close> is set),
  \<open>loadSegments\<close> emits exactly one warning and returns: the world and the log of
  requests are as before (no fetch), and so is every field of the object but the list
  of the emitted events, which has the warning at its end.
\<close>

theorem overlapping_refresh:
  "isLoadingSegments s \<Longrightarrow>
     loadSegments pf (n, s) = (Inr (), n, s\<lparr>events := events s @ [overlap_warning]\<rparr>)"
  by (simp add: loadSegments_busy emit_def)

theorem overlapping_refresh_witness:
  "loadSegments (static (js ''https://h/expire/9/live'') live_site)
     (\<lparr>world = (), requests = []\<rparr>, fresh\<lparr>isLoadingSegments := True\<rparr>)
   = (Inr (), \<lparr>world = (), requests = []\<rparr>,
      fresh\<lparr>isLoadingSegments := True, events := [overlap_warning]\<rparr>)"
  using overlapping_refresh [of "fresh\<lparr>isLoadingSegments := True\<rparr>"
      "static (js ''https://h/expire/9/live'') live_site" "\<lparr>world = (), requests = []\<rparr>"]
  by (simp add: fresh_def)

text \<open>
  Claim C10.  When a refresh that has set \<open>isLoadingSegments\<close> ends with an error,
  whatever the error, the flag is still set afterwards, also after \<open>errorFn\<close>; so
  every later call of \<open>loadSegments\<close>, on any platform and in any world, only
  emits the warning of an overlapping refresh, and any number of further timer
  calls of \<open>loadFn\<close> leave nothing but such warnings and send no request.
\<close>

theorem error_keeps_refreshing_flag:
  assumes "\<not> isLoadingSegments s" and "loadSegments pf (n, s) = (Inl e, n', s')"
  shows "isLoadingSegments s'
    \<and> (\<forall>pf2 n2. loadSegments pf2 (n2, s') = (Inr (), n2, emit overlap_warning s'))
    \<and> loadFn pf (n, s) = (n', errorFn e s')
    \<and> (\<forall>k. (loadFn pf ^^ k) (loadFn pf (n, s))
          = (n', (errorFn e s')\<lparr>events := events (errorFn e s') @ replicate k overlap_warning\<rparr>))"
proof -
  have flag: "isLoadingSegments s'" using assms by (rule loadSegments_error_keeps_flag)
  have fn: "loadFn pf (n, s) = (n', errorFn e s')" using assms(2) by (simp add: loadFn_def)
  have "isLoadingSegments (errorFn e s')" using flag by (simp add: errorFn_def emit_def)
  then have "\<forall>k. (loadFn pf ^^ k) (n', errorFn e s')
      = (n', (errorFn e s')\<lparr>events := events (errorFn e s') @ replicate k overlap_warning\<rparr>)"
    by (simp add: loadFn_busy)
  with flag fn show ?thesis by (simp add: loadSegments_busy)
qed

text \<open>A resolve function whose url carries no expiry: the first run fails.\<close>

theorem error_keeps_refreshing_flag_witness:
  "loadSegments (static (js ''https://h/live'') live_site) (\<lparr>world = (), requests = []\<rparr>, fresh)
     = (Inl MissingExpiry, \<lparr>world = (), requests = []\<rparr>,
        fresh\<lparr>resolvedUrl := Some (js ''https://h/live''), isLoadingSegments := True\<rparr>)
   \<and> (loadFn (static (js ''https://h/live'') live_site) ^^ 2)
       (loadFn (static (js ''https://h/live'') live_site) (\<lparr>world = (), requests = []\<rparr>, fresh))
     = (\<lparr>world = (), requests = []\<rparr>,
        fresh\<lparr>resolvedUrl := Some (js ''https://h/live''), isLoadingSegments := True,
          loadInterval := False,
          events := [Error MissingExpiry, overlap_warning, overlap_warning]\<rparr>)"
proof -
  let ?P = "static (js ''https://h/live'') live_site"
  let ?n = "\<lparr>world = (), requests = []\<rparr> :: unit net"
  have idle: "\<not> isLoadingSegments fresh" by (simp add: fresh_def)
  have run: "loadSegments ?P (?n, fresh)
     = (Inl MissingExpiry, ?n,
        fresh\<lparr>resolvedUrl := Some (js ''https://h/live''), isLoadingSegments := True\<rparr>)"
    by (simp add: loadSegments_def stream_defs static_def fresh_def wake_def)
  from error_keeps_refreshing_flag [OF idle run]
  have "(loadFn ?P ^^ 2) (loadFn ?P (?n, fresh))
     = (?n, (errorFn MissingExpiry
          (fresh\<lparr>resolvedUrl := Some (js ''https://h/live''), isLoadingSegments := True\<rparr>))
        \<lparr>events := events (errorFn MissingExpiry
          (fresh\<lparr>resolvedUrl := Some (js ''https://h/live''), isLoadingSegments := True\<rparr>))
          @ replicate 2 overlap_warning\<rparr>)"
    by blast
  with run show ?thesis
    by (simp add: errorFn_def emit_def fresh_def numeral_2_eq_2)
qed

text \<open>
  Claim C6.  In the loop over the kept items, when the stream is closed while a
  segment is fetched, the check after the fetch ends the run: the segments after it
  are never fetched (the world and the request log are those the fetch has left),
  \<open>isLoadingSegments\<close> is cleared, and the segments piped before stay piped, one
  for each item before.  The first fetch of the loop comes right after the check of
  line 164: with the timer cleared at that point the run ends before any segment is
  fetched.  A run that returns from inside the loop has cleared the flag and leaves
  \<open>startSequence\<close> as it was.
\<close>

theorem teardown_stops_delivery:
  "(pipeSegments pf before (n, s) = (Inr True, n1, s1)
      \<and> downloadTries pf (Some warn) item 3 (n1, s1) = (Inr segment, n2, s2)
      \<and> closed pf (world n2)
     \<longrightarrow> pipeSegments pf (before @ item # rest) (n, s)
           = (Inr False, n2, s2\<lparr>loadInterval := False, isLoadingSegments := False\<rparr>)
         \<and> piped s2 = piped s1
         \<and> (\<exists>segs. piped s1 = piped s @ segs \<and> length segs = length before))
   \<and> (\<not> isLoadingSegments c
      \<and> resolveUrl pf (m, c\<lparr>isLoadingSegments := True\<rparr>) = (Inr (), m1, c1)
      \<and> loadPlaylist pf (m1, c1) = (Inr items, m2, c2) \<and> \<not> loadInterval c2
     \<longrightarrow> loadSegments pf (m, c) = (Inr (), m2, c2\<lparr>isLoadingSegments := False\<rparr>))
   \<and> (\<not> isLoadingSegments c
      \<and> resolveUrl pf (m, c\<lparr>isLoadingSegments := True\<rparr>) = (Inr (), m1, c1)
      \<and> loadPlaylist pf (m1, c1) = (Inr items, m2, c2) \<and> loadInterval c2 \<and> items \<noteq> []
      \<and> pipeSegments pf (if falsy (startSequence c2)
            then slice (- segmentCacheCount c2) items else items) (m2, c2) = (Inr False, m3, c3)
     \<longrightarrow> loadSegments pf (m, c) = (Inr (), m3, c3)
         \<and> \<not> isLoadingSegments c3 \<and> startSequence c3 = startSequence c)"
proof (intro conjI impI)
  assume a: "pipeSegments pf before (n, s) = (Inr True, n1, s1)
      \<and> downloadTries pf (Some warn) item 3 (n1, s1) = (Inr segment, n2, s2)
      \<and> closed pf (world n2)"
  then have w: "(wake pf n2 s2)\<lparr>isLoadingSegments := False\<rparr>
      = s2\<lparr>loadInterval := False, isLoadingSegments := False\<rparr>"
    by (simp add: wake_def)
  from a have "pipeSegments pf (item # rest) (n1, s1)
      = (Inr False, n2, (wake pf n2 s2)\<lparr>isLoadingSegments := False\<rparr>)"
    by (simp add: Let_def)
  with a w show "pipeSegments pf (before @ item # rest) (n, s)
      = (Inr False, n2, s2\<lparr>loadInterval := False, isLoadingSegments := False\<rparr>)"
    by (simp add: pipeSegments_append)
  from a downloadTries_warn_frame [of pf item 3 n1 s1 "Inr segment" n2 s2]
  show "piped s2 = piped s1" by auto
  from a pipeSegments_frame [of pf before n s "Inr True" n1 s1]
  show "\<exists>segs. piped s1 = piped s @ segs \<and> length segs = length before" by auto
next
  assume "\<not> isLoadingSegments c
      \<and> resolveUrl pf (m, c\<lparr>isLoadingSegments := True\<rparr>) = (Inr (), m1, c1)
      \<and> loadPlaylist pf (m1, c1) = (Inr items, m2, c2) \<and> \<not> loadInterval c2"
  then show "loadSegments pf (m, c) = (Inr (), m2, c2\<lparr>isLoadingSegments := False\<rparr>)"
    by (simp add: loadSegments_def)
next
  assume a: "\<not> isLoadingSegments c
      \<and> resolveUrl pf (m, c\<lparr>isLoadingSegments := True\<rparr>) = (Inr (), m1, c1)
      \<and> loadPlaylist pf (m1, c1) = (Inr items, m2, c2) \<and> loadInterval c2 \<and> items \<noteq> []
      \<and> pipeSegments pf (if falsy (startSequence c2)
            then slice (- segmentCacheCount c2) items else items) (m2, c2) = (Inr False, m3, c3)"
  then show "loadSegments pf (m, c) = (Inr (), m3, c3)"
    by (simp add: loadSegments_def Let_def)
  from a have p3: "pipeSegments pf (if falsy (startSequence c2)
            then slice (- segmentCacheCount c2) items else items) (m2, c2) = (Inr False, m3, c3)"
    by simp
  from pipeSegments_frame [OF p3] show "\<not> isLoadingSegments c3" by simp
  from a have p1: "resolveUrl pf (m, c\<lparr>isLoadingSegments := True\<rparr>) = (Inr (), m1, c1)"
    and p2: "loadPlaylist pf (m1, c1) = (Inr items, m2, c2)" by simp_all
  from pipeSegments_frame [OF p3] resolveUrl_frame(3) [OF p1] loadPlaylist_frame(3) [OF p2]
  show "startSequence c3 = startSequence c" by simp
qed

text \<open>
  Three runs on scripted servers: the stream is closed during the fetch of the second
  of three segments; during the fetch of the playlist; and a whole refresh in which it
  is closed during the fetch of the second segment.
\<close>

theorem teardown_stops_delivery_witness:
  "pipeSegments (scripted [] 2) [js ''https://h/sq/1'', js ''https://h/sq/2'', js ''https://h/sq/3'']
     (\<lparr>world = [Response 200 None (Complete [''one'']), Response 200 None (Complete [''two'']),
                Response 200 None (Complete [''three''])], requests = []\<rparr>,
      fresh\<lparr>isLoadingSegments := True\<rparr>)
   = (Inr False,
      \<lparr>world = [Response 200 None (Complete [''three''])],
       requests = [js ''https://h/sq/1'', js ''https://h/sq/2'']\<rparr>,
      fresh\<lparr>piped := [''one''], loadInterval := False\<rparr>)
   \<and> loadSegments (scripted (js ''https://h/expire/9/live'') 1)
       (\<lparr>world = [Response 200 None (Complete [three_segments])], requests = []\<rparr>, fresh)
     = (Inr (), \<lparr>world = [], requests = [js ''https://h/expire/9/live'']\<rparr>,
        fresh\<lparr>resolvedUrl := Some (js ''https://h/expire/9/live''), urlExpire := Finite 9000,
          loadInterval := False\<rparr>)
   \<and> loadSegments (scripted (js ''https://h/expire/9/live'') 2)
       (\<lparr>world = [Response 200 None (Complete [three_segments]),
                  Response 200 None (Complete [''one'']), Response 200 None (Complete [''two'']),
                  Response 200 None (Complete [''three''])], requests = []\<rparr>, fresh)
     = (Inr (),
        \<lparr>world = [Response 200 None (Complete [''three''])],
         requests = [js ''https://h/expire/9/live'', js ''https://h/sq/1'', js ''https://h/sq/2'']\<rparr>,
        fresh\<lparr>resolvedUrl := Some (js ''https://h/expire/9/live''), urlExpire := Finite 9000,
          loadInterval := False, piped := [''one'']\<rparr>)"
proof -
  let ?u = "js ''https://h/expire/9/live''"
  let ?one = "Response 200 None (Complete [''one''])"
  let ?two = "Response 200 None (Complete [''two''])"
  let ?three = "Response 200 None (Complete [''three''])"
  let ?list = "Response 200 None (Complete [three_segments])"
  let ?items = "[js ''https://h/sq/1'', js ''https://h/sq/2'', js ''https://h/sq/3'']"
  let ?busy = "fresh\<lparr>isLoadingSegments := True\<rparr>"
  let ?s1 = "fresh\<lparr>isLoadingSegments := True, resolvedUrl := Some ?u, urlExpire := Finite 9000\<rparr>"
  have parsed: "items_of (parse_chunks [three_segments]) = ?items"
    by (simp add: parser_defs three_segments_def items_of_def)
  have ne: "three_segments \<noteq> []" by (simp add: three_segments_def)
  have idle: "\<not> isLoadingSegments fresh" by (simp add: fresh_def)
  txt \<open>the stream is closed while the second segment is fetched\<close>
  have a1: "pipeSegments (scripted [] 2) [js ''https://h/sq/1'']
        (\<lparr>world = [?one, ?two, ?three], requests = []\<rparr>, ?busy)
      = (Inr True, \<lparr>world = [?two, ?three], requests = [js ''https://h/sq/1'']\<rparr>,
         ?busy\<lparr>piped := [''one'']\<rparr>)"
    by (simp add: downloadTries.simps platform_defs fresh_def wake_def)
  have a2: "downloadTries (scripted [] 2) (Some warn) (js ''https://h/sq/2'') 3
        (\<lparr>world = [?two, ?three], requests = [js ''https://h/sq/1'']\<rparr>, ?busy\<lparr>piped := [''one'']\<rparr>)
      = (Inr ''two'', \<lparr>world = [?three], requests = [js ''https://h/sq/1'', js ''https://h/sq/2'']\<rparr>,
         ?busy\<lparr>piped := [''one'']\<rparr>)"
    by (simp add: downloadTries.simps platform_defs)
  have a3: "closed (scripted [] 2)
      (world \<lparr>world = [?three], requests = [js ''https://h/sq/1'', js ''https://h/sq/2'']\<rparr>)"
    by (simp add: scripted_def)
  txt \<open>the stream is closed while the playlist is fetched\<close>
  have b1: "resolveUrl (scripted ?u 1) (\<lparr>world = [?list], requests = []\<rparr>, ?busy)
      = (Inr (), \<lparr>world = [?list], requests = []\<rparr>, ?s1)"
    by (simp add: stream_defs scripted_def fresh_def wake_def)
  have b2: "loadPlaylist (scripted ?u 1) (\<lparr>world = [?list], requests = []\<rparr>, ?s1)
      = (Inr ?items, \<lparr>world = [], requests = [?u]\<rparr>, ?s1\<lparr>loadInterval := False\<rparr>)"
    using parsed ne
    by (simp add: loadPlaylist_def downloadTries.simps platform_defs fresh_def wake_def)
  have b3: "\<not> loadInterval (?s1\<lparr>loadInterval := False\<rparr>)" by simp
  txt \<open>a whole run in which the stream is closed while the second segment is fetched\<close>
  have c1: "resolveUrl (scripted ?u 2)
        (\<lparr>world = [?list, ?one, ?two, ?three], requests = []\<rparr>, ?busy)
      = (Inr (), \<lparr>world = [?list, ?one, ?two, ?three], requests = []\<rparr>, ?s1)"
    by (simp add: stream_defs scripted_def fresh_def wake_def)
  have c2: "loadPlaylist (scripted ?u 2)
        (\<lparr>world = [?list, ?one, ?two, ?three], requests = []\<rparr>, ?s1)
      = (Inr ?items, \<lparr>world = [?one, ?two, ?three], requests = [?u]\<rparr>, ?s1)"
    using parsed ne
    by (simp add: loadPlaylist_def downloadTries.simps platform_defs fresh_def wake_def)
  have c3: "loadInterval ?s1" and c4: "?items \<noteq> []" by (simp_all add: fresh_def)
  have c5: "pipeSegments (scripted ?u 2)
        (if falsy (startSequence ?s1) then slice (- segmentCacheCount ?s1) ?items else ?items)
        (\<lparr>world = [?one, ?two, ?three], requests = [?u]\<rparr>, ?s1)
      = (Inr False,
         \<lparr>world = [?three], requests = [?u, js ''https://h/sq/1'', js ''https://h/sq/2'']\<rparr>,
         fresh\<lparr>resolvedUrl := Some ?u, urlExpire := Finite 9000, loadInterval := False,
           piped := [''one'']\<rparr>)"
    by (simp add: downloadTries.simps platform_defs fresh_def wake_def falsy_def slice_def)
  note A = teardown_stops_delivery [where pf = "scripted [] 2" and rest = "[js ''https://h/sq/3'']",
      THEN conjunct1, rule_format, OF conjI [OF a1 conjI [OF a2 a3]]]
  note B = teardown_stops_delivery [where pf = "scripted ?u 1",
      THEN conjunct2, THEN conjunct1, rule_format, OF conjI [OF idle conjI [OF b1 conjI [OF b2 b3]]]]
  note C = teardown_stops_delivery [where pf = "scripted ?u 2",
      THEN conjunct2, THEN conjunct2, rule_format,
      OF conjI [OF idle conjI [OF c1 conjI [OF c2 conjI [OF c3 conjI [OF c4 c5]]]]]]
  from A B C show ?thesis
    by (simp add: fresh_def)
qed

lemma pipeSegments_fetched:
  "pipeSegments pf items (n, s) = (Inr True, n', s') \<Longrightarrow>
     \<exists>segs. piped s' = piped s @ segs \<and> list_all2 (fetched pf) items segs"
proof (induction items arbitrary: n s)
  case Nil
  then show ?case by simp
next
  case (Cons item items)
  obtain res n1 s1 where d: "downloadTries pf (Some warn) item 3 (n, s) = (res, n1, s1)"
    by (cases "downloadTries pf (Some warn) item 3 (n, s)") auto
  from downloadTries_warn_frame [OF d] obtain ws where s1: "s1 = s\<lparr>events := events s @ ws\<rparr>"
    by blast
  show ?case
  proof (cases res)
    case (Inl e)
    with Cons.prems d show ?thesis by simp
  next
    case (Inr segment)
    have f: "fetched pf item segment" using d Inr by (auto simp: fetched_def)
    show ?thesis
    proof (cases "loadInterval (wake pf n1 s1)")
      case False
      with Cons.prems d Inr show ?thesis by (simp add: Let_def)
    next
      case True
      with Cons.prems d Inr
      have rec: "pipeSegments pf items
          (n1, (wake pf n1 s1)\<lparr>piped := piped (wake pf n1 s1) @ [segment]\<rparr>) = (Inr True, n', s')"
        by (simp add: Let_def)
      from Cons.IH [OF rec] obtain segs
        where "piped s' = (piped s @ [segment]) @ segs" and "list_all2 (fetched pf) items segs"
        using s1 by auto
      with f have "piped s' = piped s @ segment # segs
          \<and> list_all2 (fetched pf) (item # items) (segment # segs)" by simp
      then show ?thesis by blast
    qed
  qed
qed

text \<open>
  Claim C1, as amended.  In a first refresh (no \<open>startSequence\<close> held) in which the
  parser yields the non-empty list \<open>items\<close> and which returns without an error and with
  the stream still open, \<open>loadSegments\<close> pipes exactly the last
  \<open>min (segmentCacheCount s) (length items)\<close> items, in the order of the document: the
  segments piped are, one by one, what the fetches of these items have returned.  When
  the sequence number in the url of the last item is below \<open>2^53\<close>, \<open>startSequence\<close>
  is set to the decimal numeral of that number plus 1.
\<close>

theorem first_refresh_window:
  assumes "\<not> isLoadingSegments s" and "falsy (startSequence s)"
    and "0 < segmentCacheCount s"
    and "resolveUrl pf (n, s\<lparr>isLoadingSegments := True\<rparr>) = (Inr (), n1, s1)"
    and "loadPlaylist pf (n1, s1) = (Inr items, n2, s2)" and "items \<noteq> []"
    and "loadSegments pf (n, s) = (Inr (), n', s')" and "loadInterval s'"
    and "exec_digits (js ''sq/'') (last items) = Some ds" and "digits_value ds < 2 ^ 53"
  shows "\<exists>segs. piped s' = piped s @ segs
    \<and> list_all2 (fetched pf)
        (drop (length items - min (nat (segmentCacheCount s)) (length items)) items) segs
    \<and> startSequence s' = Some (decimal (digits_value ds + 1))
    \<and> \<not> isLoadingSegments s'"
proof -
  define k where "k = segmentCacheCount s"
  define kept where "kept = drop (length items - nat k) items"
  have k2: "segmentCacheCount s2 = k" and c2: "falsy (startSequence s2)"
    and p2: "piped s2 = piped s"
    using resolveUrl_frame [OF assms(4)] loadPlaylist_frame [OF assms(5)] assms(2)
    by (simp_all add: k_def)
  have kept: "slice (- segmentCacheCount s2) items = kept"
    using assms(3) by (simp add: k2 k_def kept_def slice_last)
  have "0 < length items" using assms(6) by simp
  then have "length items - nat k < length items" using assms(3) by (simp add: k_def)
  then have ne: "kept \<noteq> []" by (simp add: kept_def)
  have last: "last kept = last items" using ne by (simp add: kept_def)
  have seq: "getSequenceID (last kept) = Inr (parseInt ds)"
    using assms(9) by (simp add: last getSequenceID_def)
  obtain r3 n3 s3 where p3: "pipeSegments pf kept (n2, s2) = (r3, n3, s3)"
    by (cases "pipeSegments pf kept (n2, s2)") auto
  note fr = pipeSegments_frame [OF p3]
  have a2: "loadInterval s2"
  proof (rule ccontr)
    assume "\<not> loadInterval s2"
    with assms(1,4,5,7) have "s' = s2\<lparr>isLoadingSegments := False\<rparr>"
      by (simp add: loadSegments_def)
    with \<open>\<not> loadInterval s2\<close> assms(8) show False by simp
  qed
  have run: "(case r3 of
        Inl e \<Rightarrow> (Inl e, n3, s3)
      | Inr False \<Rightarrow> (Inr (), n3, s3)
      | Inr True \<Rightarrow> (Inr (), n3,
          s3\<lparr>startSequence := Some (number_string (plus_number (parseInt ds) 1)),
             isLoadingSegments := False\<rparr>)) = (Inr (), n', s')"
    using assms(1,4,5,6,7) a2 c2 kept ne seq p3
    by (simp add: loadSegments_def Let_def split: sum.splits bool.splits)
  have r3: "r3 = Inr True"
  proof (cases r3)
    case (Inl e)
    with run show ?thesis by simp
  next
    case (Inr through)
    show ?thesis
    proof (cases through)
      case True
      with Inr show ?thesis by simp
    next
      case False
      with Inr run have "s' = s3" by simp
      with fr Inr False assms(8) show ?thesis by simp
    qed
  qed
  with run have s': "s' = s3\<lparr>startSequence := Some (number_string (plus_number (parseInt ds) 1)),
      isLoadingSegments := False\<rparr>" by simp
  from pipeSegments_fetched [OF p3 [unfolded r3]] obtain segs
    where segs: "piped s3 = piped s2 @ segs" "list_all2 (fetched pf) kept segs" by blast
  have "length items - min (nat k) (length items) = length items - nat k" by simp
  then have "list_all2 (fetched pf)
      (drop (length items - min (nat (segmentCacheCount s)) (length items)) items) segs"
    using segs(2) by (simp add: kept_def k_def)
  moreover have "piped s' = piped s @ segs" using s' segs(1) p2 by simp
  moreover have "startSequence s' = Some (decimal (digits_value ds + 1))"
    unfolding s' using next_sequence_safe [OF assms(10)] by simp
  moreover have "\<not> isLoadingSegments s'" using s' by simp
  ultimately show ?thesis by blast
qed

text \<open>
  The playlist of ten segments with the default cache count 3: the segments 8, 9 and
  10 are piped, and the next sequence number is 11.
\<close>

theorem first_refresh_window_witness:
  "\<exists>segs. map (map char_of)
        [js ''https://h/sq/8'', js ''https://h/sq/9'', js ''https://h/sq/10''] = [] @ segs
     \<and> list_all2 (fetched (static (js ''https://h/expire/9/live'') live_site))
          [js ''https://h/sq/8'', js ''https://h/sq/9'', js ''https://h/sq/10''] segs
     \<and> loadSegments (static (js ''https://h/expire/9/live'') live_site)
          (\<lparr>world = (), requests = []\<rparr>, fresh)
        = (Inr (),
           \<lparr>world = (), requests = [js ''https://h/expire/9/live'', js ''https://h/sq/8'',
              js ''https://h/sq/9'', js ''https://h/sq/10'']\<rparr>,
           fresh\<lparr>resolvedUrl := Some (js ''https://h/expire/9/live''), urlExpire := Finite 9000,
             startSequence := Some (js ''11''),
             piped := map (map char_of)
               [js ''https://h/sq/8'', js ''https://h/sq/9'', js ''https://h/sq/10'']\<rparr>)"
proof -
  let ?P = "static (js ''https://h/expire/9/live'') live_site"
  let ?n = "\<lparr>world = (), requests = []\<rparr> :: unit net"
  let ?s1 = "fresh\<lparr>isLoadingSegments := True, resolvedUrl := Some (js ''https://h/expire/9/live''),
    urlExpire := Finite 9000\<rparr>"
  let ?items = "[js ''https://h/sq/1'', js ''https://h/sq/2'', js ''https://h/sq/3'',
    js ''https://h/sq/4'', js ''https://h/sq/5'', js ''https://h/sq/6'', js ''https://h/sq/7'',
    js ''https://h/sq/8'', js ''https://h/sq/9'', js ''https://h/sq/10'']"
  let ?n2 = "\<lparr>world = (), requests = [js ''https://h/expire/9/live'']\<rparr> :: unit net"
  let ?s' = "fresh\<lparr>resolvedUrl := Some (js ''https://h/expire/9/live''), urlExpire := Finite 9000,
    startSequence := Some (js ''11''),
    piped := map (map char_of)
      [js ''https://h/sq/8'', js ''https://h/sq/9'', js ''https://h/sq/10'']\<rparr>"
  have h1: "\<not> isLoadingSegments fresh" and h2: "falsy (startSequence fresh)"
    and h3: "0 < segmentCacheCount fresh"
    by (simp_all add: fresh_def falsy_def)
  have h4: "resolveUrl ?P (?n, fresh\<lparr>isLoadingSegments := True\<rparr>) = (Inr (), ?n, ?s1)"
    by (simp add: stream_defs static_def fresh_def wake_def)
  have parsed: "items_of (parse_chunks [ten_segments]) = ?items"
    by (simp add: parser_defs ten_segments_def items_of_def)
  have got: "downloadTries ?P (Some warn) (js ''https://h/expire/9/live'') 3 (?n, ?s1)
      = (Inr ten_segments, ?n2, ?s1)"
    by (simp add: downloadTries_success platform_defs live_site_def)
  have ne: "ten_segments \<noteq> []" by (simp add: ten_segments_def)
  have h5: "loadPlaylist ?P (?n, ?s1) = (Inr ?items, ?n2, ?s1)"
    using got parsed ne
    by (simp add: loadPlaylist_def static_def fresh_def wake_def)
  have h6: "?items \<noteq> []" by simp
  have kept: "slice (- segmentCacheCount ?s1) ?items
      = [js ''https://h/sq/8'', js ''https://h/sq/9'', js ''https://h/sq/10'']"
    by (simp add: slice_def fresh_def)
  have piped: "pipeSegments ?P [js ''https://h/sq/8'', js ''https://h/sq/9'', js ''https://h/sq/10'']
        (?n2, ?s1)
      = (Inr True,
         \<lparr>world = (), requests = [js ''https://h/expire/9/live'', js ''https://h/sq/8'',
              js ''https://h/sq/9'', js ''https://h/sq/10'']\<rparr>,
         ?s1\<lparr>piped := map (map char_of)
               [js ''https://h/sq/8'', js ''https://h/sq/9'', js ''https://h/sq/10'']\<rparr>)"
    by (simp add: downloadTries.simps platform_defs live_site_def fresh_def wake_def)
  have seq: "getSequenceID (js ''https://h/sq/10'') = Inr (Finite 10)"
    by (simp add: stream_defs)
  have cursor: "number_string (plus_number (Finite 10) 1) = js ''11''"
    by (simp add: number_defs)
  have h7: "loadSegments ?P (?n, fresh)
      = (Inr (),
         \<lparr>world = (), requests = [js ''https://h/expire/9/live'', js ''https://h/sq/8'',
              js ''https://h/sq/9'', js ''https://h/sq/10'']\<rparr>, ?s')"
    using h1 h4 h5 kept piped seq cursor
    by (simp add: loadSegments_def falsy_def fresh_def)
  have h8: "loadInterval ?s'" by (simp add: fresh_def)
  have h9: "exec_digits (js ''sq/'') (last ?items) = Some (js ''10'')"
    by (simp add: is_digit_def)
  have h10: "digits_value (js ''10'') < 2 ^ 53" by (simp add: digits_value_def)
  from first_refresh_window [OF h1 h2 h3 h4 h5 h6 h7 h8 h9 h10] h7
  show ?thesis
    by (simp add: fresh_def digits_value_def decimal.simps)
qed

text \<open>
  The claim as stated fails from \<open>2^53\<close> on, where a number is rounded: with the
  sequence number 9007199254740993 in the url of the last item the refresh returns with
  \<open>startSequence\<close> 9007199254740992, not 9007199254740994.
\<close>

theorem first_refresh_cursor_counterexample:
  "loadSegments (static (js ''https://h/expire/9/live'') far_site)
       (\<lparr>world = (), requests = []\<rparr>, fresh)
     = (Inr (),
        \<lparr>world = (),
         requests = [js ''https://h/expire/9/live'', js ''https://h/sq/9007199254740993'']\<rparr>,
        fresh\<lparr>resolvedUrl := Some (js ''https://h/expire/9/live''), urlExpire := Finite 9000,
          startSequence := Some (js ''9007199254740992''),
          piped := [map char_of (js ''https://h/sq/9007199254740993'')]\<rparr>)
   \<and> exec_digits (js ''sq/'') (js ''https://h/sq/9007199254740993'')
     = Some (js ''9007199254740993'')
   \<and> js ''9007199254740992'' \<noteq> decimal (digits_value (js ''9007199254740993'') + 1)"
proof -
  let ?P = "static (js ''https://h/expire/9/live'') far_site"
  let ?n = "\<lparr>world = (), requests = []\<rparr> :: unit net"
  let ?s1 = "fresh\<lparr>isLoadingSegments := True, resolvedUrl := Some (js ''https://h/expire/9/live''),
    urlExpire := Finite 9000\<rparr>"
  let ?item = "js ''https://h/sq/9007199254740993''"
  let ?n2 = "\<lparr>world = (), requests = [js ''https://h/expire/9/live'']\<rparr> :: unit net"
  have h1: "\<not> isLoadingSegments fresh" by (simp add: fresh_def)
  have h4: "resolveUrl ?P (?n, fresh\<lparr>isLoadingSegments := True\<rparr>) = (Inr (), ?n, ?s1)"
    by (simp add: stream_defs static_def fresh_def wake_def)
  have h5: "loadPlaylist ?P (?n, ?s1) = (Inr [?item], ?n2, ?s1)"
    by (simp add: loadPlaylist_def downloadTries.simps platform_defs far_site_def fresh_def
        wake_def parser_defs items_of_def)
  have kept: "slice (- segmentCacheCount ?s1) [?item] = [?item]"
    by (simp add: slice_def fresh_def)
  have piped: "pipeSegments ?P [?item] (?n2, ?s1)
      = (Inr True,
         \<lparr>world = (), requests = [js ''https://h/expire/9/live'', ?item]\<rparr>,
         ?s1\<lparr>piped := [map char_of ?item]\<rparr>)"
    by (simp add: downloadTries.simps platform_defs far_site_def fresh_def wake_def)
  have digits: "exec_digits (js ''sq/'') ?item = Some (js ''9007199254740993'')"
    by (simp add: is_digit_def)
  have val: "digits_value (js ''9007199254740993'') = 9007199254740993"
    by (simp add: digits_value_def)
  have seq: "getSequenceID ?item = Inr (Finite 9007199254740992)"
    using digits val by (simp add: getSequenceID_def parseInt_def round_double_def
        bit_length.simps Let_def)
  have "round_double 9007199254740993 = Finite 9007199254740992"
    by (simp add: round_double_def bit_length.simps Let_def)
  then have cursor: "number_string (plus_number (Finite 9007199254740992) 1)
      = js ''9007199254740992''"
    by (simp add: plus_number_def number_string_53 decimal.simps)
  have run: "loadSegments ?P (?n, fresh)
     = (Inr (),
        \<lparr>world = (), requests = [js ''https://h/expire/9/live'', ?item]\<rparr>,
        fresh\<lparr>resolvedUrl := Some (js ''https://h/expire/9/live''), urlExpire := Finite 9000,
          startSequence := Some (js ''9007199254740992''),
          piped := [map char_of ?item]\<rparr>)"
    using h1 h4 h5 kept piped seq cursor
    by (simp add: loadSegments_def falsy_def fresh_def)
  have "js ''9007199254740992'' \<noteq> decimal (digits_value (js ''9007199254740993'') + 1)"
    by (simp add: digits_value_def decimal.simps)
  with run digits show ?thesis by simp
qed

end
